theory Spec2Isabelle
  imports Complex_Main "HOL-Library.Sublist" "HOL-Library.Log_Nat" "HOL-Library.Code_Target_Numeral"
begin

section \<open>JavaScript values used by the two scripts\<close>

text \<open>
  A JavaScript string is modelled as the list of its code units, restricted to the
  8-bit range of \<^typ>\<open>char\<close>.  A JavaScript number is a double: NaN, one of the two
  infinities, the negative zero, or a finite value \<open>Num x\<close> given by the rational \<open>x\<close> it
  denotes (\<open>Num 0\<close> is the positive zero).  The result of an arithmetic operation is the
  exact result rounded to the nearest double, ties to even, an infinity on overflow
  and a zero on underflow.
\<close>

datatype jsnum = NaN | PInf | NInf | NZero | Num rat

datatype jsval = JNum jsnum | JStr string

text \<open>An object is a map from property names to values; a missing property reads as
  \<open>undefined\<close>, which is \<open>None\<close>.\<close>

type_synonym jsobj = "string \<rightharpoonup> jsval"

fun is_finite :: "jsnum \<Rightarrow> bool" where
  "is_finite (Num a) = True"
| "is_finite NZero = True"
| "is_finite _ = False"

definition is_zero :: "jsnum \<Rightarrow> bool" where
  "is_zero n = (n = NZero \<or> n = Num 0)"

text \<open>The sign bit, and the value of a finite number.\<close>

fun negative :: "jsnum \<Rightarrow> bool" where
  "negative NInf = True"
| "negative NZero = True"
| "negative (Num a) = (a < 0)"
| "negative _ = False"

fun js_value :: "jsnum \<Rightarrow> rat" where
  "js_value (Num a) = a"
| "js_value _ = 0"

definition inf_of :: "bool \<Rightarrow> jsnum" where
  "inf_of neg = (if neg then NInf else PInf)"

definition zero_of :: "bool \<Rightarrow> jsnum" where
  "zero_of neg = (if neg then NZero else Num 0)"

subsection \<open>Rounding to a double\<close>

definition pow2 :: "int \<Rightarrow> rat" where
  "pow2 q = (if 0 \<le> q then 2 ^ nat q else 1 / 2 ^ nat (- q))"

text \<open>The exponent \<open>e\<close> of a positive rational: \<open>2 ^ e \<le> a < 2 ^ (e + 1)\<close>.\<close>

definition floor_log2 :: "rat \<Rightarrow> int" where
  "floor_log2 a =
     (let (p, d) = quotient_of a; e = bitlen p - bitlen d
      in if pow2 e \<le> a then e else e - 1)"

definition round_half_even :: "rat \<Rightarrow> int" where
  "round_half_even m =
     (let f = \<lfloor>m\<rfloor>; r = m - of_int f
      in if r < 1 / 2 then f else if 1 / 2 < r then f + 1 else if even f then f else f + 1)"

text \<open>
  The double nearest to the exact result \<open>x\<close>: 53 significant bits, the least exponent
  \<open>-1074\<close> (subnormal numbers), an infinity from \<open>2 ^ 1024\<close> on.  A result that rounds to
  zero keeps the sign of \<open>x\<close>; \<open>neg0\<close> is the sign of an exact zero, which depends on the
  operation.
\<close>

definition to_double :: "bool \<Rightarrow> rat \<Rightarrow> jsnum" where
  "to_double neg0 x =
     (if x = 0 then zero_of neg0
      else
        (let a = \<bar>x\<bar>; e = floor_log2 a; q = max (e - 52) (- 1074);
             n = round_half_even (a / pow2 q); r = of_int n * pow2 q
         in if 2 ^ 1024 \<le> r then inf_of (x < 0)
            else if n = 0 then zero_of (x < 0)
            else Num (if x < 0 then - r else r)))"

subsection \<open>Arithmetic and comparison\<close>

fun js_neg :: "jsnum \<Rightarrow> jsnum" where
  "js_neg NaN = NaN"
| "js_neg PInf = NInf"
| "js_neg NInf = PInf"
| "js_neg NZero = Num 0"
| "js_neg (Num a) = (if a = 0 then NZero else Num (- a))"

text \<open>\<open>a + b\<close>: the sum of two zeros is the negative zero only when both are.\<close>

definition js_add :: "jsnum \<Rightarrow> jsnum \<Rightarrow> jsnum" where
  "js_add a b =
     (if a = NaN \<or> b = NaN then NaN
      else if is_finite a \<and> is_finite b
        then to_double (a = NZero \<and> b = NZero) (js_value a + js_value b)
      else if (a = PInf \<and> b = NInf) \<or> (a = NInf \<and> b = PInf) then NaN
      else if a = PInf \<or> b = PInf then PInf
      else NInf)"

definition js_sub :: "jsnum \<Rightarrow> jsnum \<Rightarrow> jsnum" where
  "js_sub a b = js_add a (js_neg b)"


text \<open>\<open>a / b\<close>: a zero divided by a zero and an infinity divided by an infinity are NaN;
  any other number divided by a zero is an infinity, whose sign takes the sign of the
  zero into account.\<close>

definition js_div :: "jsnum \<Rightarrow> jsnum \<Rightarrow> jsnum" where
  "js_div a b =
     (if a = NaN \<or> b = NaN then NaN
      else if is_finite a \<and> is_finite b then
        (if is_zero b then (if is_zero a then NaN else inf_of (negative a \<noteq> negative b))
         else to_double (negative a \<noteq> negative b) (js_value a / js_value b))
      else if is_finite b then inf_of (negative a \<noteq> negative b)
      else if is_finite a then zero_of (negative a \<noteq> negative b)
      else NaN)"

text \<open>\<open>a > b\<close> on numbers: false as soon as one side is NaN; the two zeros are equal.\<close>

definition js_gt :: "jsnum \<Rightarrow> jsnum \<Rightarrow> bool" where
  "js_gt a b =
     (if a = NaN \<or> b = NaN then False
      else if a = PInf then b \<noteq> PInf
      else if b = NInf then a \<noteq> NInf
      else if a = NInf \<or> b = PInf then False
      else js_value b < js_value a)"

subsection \<open>Characters and numeric strings\<close>

definition is_digit :: "char \<Rightarrow> bool" where
  "is_digit c = (48 \<le> (of_char c :: nat) \<and> (of_char c :: nat) \<le> 57)"

text \<open>White space and line terminators, as \<open>trim\<close>, \<open>\s\<close>, \<open>parseInt\<close> and
  \<open>parseFloat\<close> skip them: TAB, LF, VT, FF, CR, SP and NBSP.\<close>

definition is_space :: "char \<Rightarrow> bool" where
  "is_space c = ((of_char c :: nat) \<in> {9, 10, 11, 12, 13, 32, 160})"

definition trim :: "string \<Rightarrow> string" where
  "trim s = rev (dropWhile is_space (rev (dropWhile is_space s)))"

text \<open>A digit (decimal or hexadecimal) and its value.\<close>

definition hex_val :: "char \<Rightarrow> nat option" where
  "hex_val c =
     (let n = (of_char c :: nat) in
      if 48 \<le> n \<and> n \<le> 57 then Some (n - 48)
      else if 65 \<le> n \<and> n \<le> 70 then Some (n - 55)
      else if 97 \<le> n \<and> n \<le> 102 then Some (n - 87)
      else None)"

definition hex_num :: "char \<Rightarrow> nat" where
  "hex_num c = (case hex_val c of None \<Rightarrow> 0 | Some d \<Rightarrow> d)"

text \<open>The value of a run of digits in a radix.\<close>

definition digits_val :: "nat \<Rightarrow> string \<Rightarrow> nat" where
  "digits_val radix ds = foldl (\<lambda>a d. radix * a + d) 0 (map hex_num ds)"

text \<open>An optional sign: the factor and the rest of the string.\<close>

fun take_sign :: "string \<Rightarrow> rat \<times> string" where
  "take_sign [] = (1, [])"
| "take_sign (c # cs) =
     (if c = CHR ''-'' then (- 1, cs) else if c = CHR ''+'' then (1, cs) else (1, c # cs))"

text \<open>The exponent part \<open>e\<close>, optional sign, digits: the power of ten and the rest, or
  nothing when the digits are missing.\<close>

definition take_exponent :: "string \<Rightarrow> (rat \<times> string) option" where
  "take_exponent s =
     (case s of
        [] \<Rightarrow> None
      | c # cs \<Rightarrow>
          if c = CHR ''e'' \<or> c = CHR ''E'' then
            (let neg = (cs \<noteq> [] \<and> hd cs = CHR ''-'');
                 ds = (if cs \<noteq> [] \<and> (hd cs = CHR ''-'' \<or> hd cs = CHR ''+'') then tl cs else cs);
                 e = takeWhile is_digit ds
             in if e = [] then None
                else Some (if neg then 1 / 10 ^ digits_val 10 e else 10 ^ digits_val 10 e,
                           dropWhile is_digit ds))
          else None)"

text \<open>The longest prefix that is an unsigned decimal literal (\<open>12\<close>, \<open>12.\<close>, \<open>12.5\<close>, \<open>.5\<close>,
  each with an optional exponent): its value and the rest of the string.\<close>

definition take_decimal :: "string \<Rightarrow> (rat \<times> string) option" where
  "take_decimal s =
     (let ip = takeWhile is_digit s; r1 = dropWhile is_digit s;
          has_dot = (r1 \<noteq> [] \<and> hd r1 = CHR ''.'');
          fp = (if has_dot then takeWhile is_digit (tl r1) else []);
          r2 = (if has_dot then dropWhile is_digit (tl r1) else r1)
      in if ip = [] \<and> fp = [] then None
         else
           (let m = rat_of_nat (digits_val 10 ip) + rat_of_nat (digits_val 10 fp) / 10 ^ length fp
            in case take_exponent r2 of
                 None \<Rightarrow> Some (m, r2)
               | Some (p, r3) \<Rightarrow> Some (m * p, r3)))"

text \<open>The number that \<open>parseFloat\<close> or \<open>parseInt\<close> reads from a literal of value \<open>x\<close>: the
  double nearest to \<open>x\<close>.  A zero is read as the positive zero: the scripts read the
  result through \<open>|| 0\<close>, which turns either zero into the positive one.\<close>

definition literal_value :: "rat \<Rightarrow> jsnum" where
  "literal_value x = (case to_double False x of NZero \<Rightarrow> Num 0 | n \<Rightarrow> n)"

text \<open>\<open>parseFloat(s)\<close>: leading white space is skipped, then the longest prefix that is a
  signed decimal literal or \<open>Infinity\<close> is read; NaN when there is none.\<close>

definition parseFloat :: "string \<Rightarrow> jsnum" where
  "parseFloat s =
     (let (sg, r) = take_sign (dropWhile is_space s)
      in if prefix ''Infinity'' r then (if sg < 0 then NInf else PInf)
         else (case take_decimal r of None \<Rightarrow> NaN | Some (v, _) \<Rightarrow> literal_value (sg * v)))"

text \<open>\<open>parseInt(s)\<close> with no radix: leading white space, a sign, a \<open>0x\<close> prefix that
  selects base 16, then the longest run of digits; NaN when the run is empty.\<close>

definition parseInt :: "string \<Rightarrow> jsnum" where
  "parseInt s =
     (let (sg, r) = take_sign (dropWhile is_space s)
      in if prefix ''0x'' r \<or> prefix ''0X'' r then
           (let ds = takeWhile (\<lambda>c. hex_val c \<noteq> None) (drop 2 r)
            in if ds = [] then NaN else literal_value (sg * rat_of_nat (digits_val 16 ds)))
         else
           (let ds = takeWhile is_digit r
            in if ds = [] then NaN else literal_value (sg * rat_of_nat (digits_val 10 ds))))"

text \<open>The conversion of a string operand of an arithmetic operator: the whole trimmed
  string has to be a numeric literal, and the empty string is 0.  The result is the
  double nearest to the value of the literal, with the sign of the literal when it is a
  zero.\<close>

definition radix_literal :: "nat \<Rightarrow> string \<Rightarrow> jsnum" where
  "radix_literal radix ds =
     (if ds \<noteq> [] \<and> list_all (\<lambda>c. case hex_val c of None \<Rightarrow> False | Some d \<Rightarrow> d < radix) ds
      then to_double False (rat_of_nat (digits_val radix ds))
      else NaN)"

definition string_to_number :: "string \<Rightarrow> jsnum" where
  "string_to_number s =
     (let t = trim s
      in if t = [] then Num 0
         else if prefix ''0x'' t \<or> prefix ''0X'' t then radix_literal 16 (drop 2 t)
         else if prefix ''0o'' t \<or> prefix ''0O'' t then radix_literal 8 (drop 2 t)
         else if prefix ''0b'' t \<or> prefix ''0B'' t then radix_literal 2 (drop 2 t)
         else
           (let (sg, r) = take_sign t
            in if r = ''Infinity'' then (if sg < 0 then NInf else PInf)
               else (case take_decimal r of
                       Some (v, []) \<Rightarrow> to_double (sg < 0) (sg * v)
                     | _ \<Rightarrow> NaN)))"

text \<open>Reading an operand as a number: \<open>undefined\<close> is NaN.\<close>

fun to_number :: "jsval option \<Rightarrow> jsnum" where
  "to_number None = NaN"
| "to_number (Some (JNum n)) = n"
| "to_number (Some (JStr s)) = string_to_number s"

text \<open>Truthiness: \<open>undefined\<close>, NaN, the two zeros and the empty string are falsy.\<close>

fun truthy :: "jsval option \<Rightarrow> bool" where
  "truthy None = False"
| "truthy (Some (JNum NaN)) = False"
| "truthy (Some (JNum NZero)) = False"
| "truthy (Some (JNum (Num a))) = (a \<noteq> 0)"
| "truthy (Some (JNum _)) = True"
| "truthy (Some (JStr s)) = (s \<noteq> [])"

text \<open>\<open>x || d\<close> for a property read \<open>x\<close> and a default \<open>d\<close>.\<close>

definition or_else :: "jsval option \<Rightarrow> jsval \<Rightarrow> jsval" where
  "or_else x d = (case x of None \<Rightarrow> d | Some v \<Rightarrow> if truthy x then v else d)"

text \<open>\<open>parseFloat(v) || 0\<close> and \<open>parseInt(v) || 0\<close> on numbers.\<close>

definition or_zero :: "jsnum \<Rightarrow> jsnum" where
  "or_zero n = (if truthy (Some (JNum n)) then n else Num 0)"


section \<open>The analytics report: metric rows\<close>

text \<open>\<open>String.prototype.includes\<close>.\<close>

fun str_includes :: "string \<Rightarrow> string \<Rightarrow> bool" where
  "str_includes [] sub = (sub = [])"
| "str_includes (c # cs) sub = (prefix sub (c # cs) \<or> str_includes cs sub)"

subsection \<open>parseGA4Response\<close>

text \<open>The report response: \<open>rows\<close>, \<open>dimensionHeaders\<close> and \<open>metricHeaders\<close> may each be
  missing.  A header is its \<open>name\<close>, a dimension or metric value is its \<open>value\<close> string.\<close>

record ga4_row =
  dimensionValues :: "string list option"
  metricValues :: "string list option"

record ga4_response =
  rows :: "ga4_row list option"
  dimensionHeaders :: "string list option"
  metricHeaders :: "string list option"

text \<open>
  A thrown error.  A \<open>TypeError\<close> raised by the engine is kept as the fault that raised
  it: reading the named property of \<open>undefined\<close> or of \<open>null\<close>, or calling the named
  property of a value that has no such method.  Its message is the engine's own wording
  of the fault, which the scripts do not fix.  The other errors carry their message.
\<close>

datatype fault = ReadOfUndefined string | ReadOfNull string | NotAFunction string

datatype js_error = TypeError fault | SyntaxError string | Error string

text \<open>\<open>Error.prototype.toString\<close> on a name and a message: the name alone when the
  message is empty.\<close>

definition named :: "string \<Rightarrow> string \<Rightarrow> string" where
  "named name msg = (if msg = [] then name else name @ '': '' @ msg)"

text \<open>\<open>error.toString()\<close>, given the engine's wording of a fault.\<close>

fun error_toString :: "(fault \<Rightarrow> string) \<Rightarrow> js_error \<Rightarrow> string" where
  "error_toString wording (TypeError f) = named ''TypeError'' (wording f)"
| "error_toString wording (SyntaxError m) = named ''SyntaxError'' m"
| "error_toString wording (Error m) = named ''Error'' m"

text \<open>The error of reading a property of \<open>undefined\<close>.\<close>

definition undefined_read :: "string \<Rightarrow> js_error" where
  "undefined_read property = TypeError (ReadOfUndefined property)"

text \<open>The \<open>forEach\<close> over the dimension headers: header \<open>index\<close> takes
  \<open>row.dimensionValues[index].value\<close>; reading \<open>.value\<close> past the end of the values
  throws.\<close>

fun set_dimensions :: "string list \<Rightarrow> string list \<Rightarrow> jsobj \<Rightarrow> js_error + jsobj" where
  "set_dimensions [] vs result = Inr result"
| "set_dimensions (h # hs) [] result = Inl (undefined_read ''value'')"
| "set_dimensions (h # hs) (v # vs) result = set_dimensions hs vs (result(h \<mapsto> JStr v))"

definition metric_value :: "string \<Rightarrow> string \<Rightarrow> jsnum" where
  "metric_value name v =
     (if str_includes name ''Rate'' \<or> str_includes name ''Duration'' \<or> str_includes name ''Per''
      then or_zero (parseFloat v)
      else or_zero (parseInt v))"

fun set_metrics :: "string list \<Rightarrow> string list \<Rightarrow> jsobj \<Rightarrow> js_error + jsobj" where
  "set_metrics [] vs result = Inr result"
| "set_metrics (h # hs) [] result = Inl (undefined_read ''value'')"
| "set_metrics (h # hs) (v # vs) result =
     set_metrics hs vs (result(h \<mapsto> JNum (metric_value h v)))"

definition parse_row :: "ga4_response \<Rightarrow> ga4_row \<Rightarrow> js_error + jsobj" where
  "parse_row response row =
     (case (case (dimensionValues row, dimensionHeaders response) of
              (Some vs, Some hs) \<Rightarrow> set_dimensions hs vs Map.empty
            | _ \<Rightarrow> Inr Map.empty) of
        Inl e \<Rightarrow> Inl e
      | Inr result \<Rightarrow>
          (case (metricValues row, metricHeaders response) of
             (Some vs, Some hs) \<Rightarrow> set_metrics hs vs result
           | _ \<Rightarrow> Inr result))"

text \<open>\<open>rows.map\<close>: the first row that throws ends the call.\<close>

fun map_rows :: "('a \<Rightarrow> js_error + 'b) \<Rightarrow> 'a list \<Rightarrow> js_error + 'b list" where
  "map_rows f [] = Inr []"
| "map_rows f (x # xs) =
     (case f x of
        Inl e \<Rightarrow> Inl e
      | Inr y \<Rightarrow> (case map_rows f xs of Inl e \<Rightarrow> Inl e | Inr ys \<Rightarrow> Inr (y # ys)))"

definition parseGA4Response :: "ga4_response \<Rightarrow> js_error + jsobj list" where
  "parseGA4Response response =
     (case rows response of
        None \<Rightarrow> Inr []
      | Some rs \<Rightarrow> if length rs = 0 then Inr [] else map_rows (parse_row response) rs)"

subsection \<open>enrichMetrics and calculatePeriodChanges\<close>

definition enrich_row :: "jsobj \<Rightarrow> jsobj" where
  "enrich_row row =
     row(''returningUsers'' \<mapsto>
           JNum (js_sub (to_number (Some (or_else (row ''totalUsers'') (JNum (Num 0)))))
                        (to_number (Some (or_else (row ''newUsers'') (JNum (Num 0)))))),
         ''avgEngagementPerSession'' \<mapsto>
           JNum (if js_gt (to_number (row ''sessions'')) (Num 0)
                 then js_div (to_number (Some (or_else (row ''userEngagementDuration'') (JNum (Num 0)))))
                             (to_number (row ''sessions''))
                 else Num 0))"

definition enrichMetrics :: "jsobj list \<Rightarrow> jsobj list" where
  "enrichMetrics data = map enrich_row data"







subsection \<open>Predicates on metric rows\<close>

text \<open>A property read that is missing or a number, and one that is missing or a finite
  number.\<close>

fun number_or_missing :: "jsval option \<Rightarrow> bool" where
  "number_or_missing None = True"
| "number_or_missing (Some (JNum n)) = True"
| "number_or_missing (Some (JStr s)) = False"







subsection \<open>Predicates on report responses\<close>

text \<open>The expected shape of a row: where the row has values and the response has headers,
  there is a value for every header.\<close>

definition row_shape_ok :: "ga4_response \<Rightarrow> ga4_row \<Rightarrow> bool" where
  "row_shape_ok response row =
     ((case (dimensionValues row, dimensionHeaders response) of
         (Some vs, Some hs) \<Rightarrow> length hs \<le> length vs | _ \<Rightarrow> True) \<and>
      (case (metricValues row, metricHeaders response) of
         (Some vs, Some hs) \<Rightarrow> length hs \<le> length vs | _ \<Rightarrow> True))"

text \<open>The rows of a response, none when the \<open>rows\<close> property is missing.\<close>

definition rows_of :: "ga4_response \<Rightarrow> ga4_row list" where
  "rows_of response = (case rows response of None \<Rightarrow> [] | Some rs \<Rightarrow> rs)"

text \<open>The two fields that \<open>enrichMetrics\<close> computes.\<close>

definition computed_fields :: "string set" where
  "computed_fields = {''returningUsers'', ''avgEngagementPerSession''}"

section \<open>The assistant: analysing a long document in chunks\<close>

text \<open>\<open>String.prototype.substring\<close> on non-negative indices: both are clamped to the
  length and swapped when out of order.\<close>

definition substring :: "string \<Rightarrow> nat \<Rightarrow> nat \<Rightarrow> string" where
  "substring s a b =
     (let st = min a (length s); en = min b (length s)
      in take (max st en - min st en) (drop (min st en) s))"

definition chunkSize :: nat where
  "chunkSize = 10000"

text \<open>The loop \<open>for (let i = 0; i < text.length; i += chunkSize - 500)\<close> of
  \<open>analyzeInChunks\<close>, from a position \<open>i\<close>: the chunks it pushes.\<close>

function split_chunks :: "string \<Rightarrow> nat \<Rightarrow> string list" where
  "split_chunks text i =
     (if i < length text
      then substring text i (min (i + chunkSize) (length text)) # split_chunks text (i + (chunkSize - 500))
      else [])"
  by pat_completeness auto
termination
  by (relation "measure (\<lambda>(text, i). length text - i)") (auto simp: chunkSize_def)

text \<open>The window of the text that chunk \<open>k\<close> holds: its first position and the position
  after its last.\<close>

definition window_start :: "nat \<Rightarrow> nat" where
  "window_start k = k * (chunkSize - 500)"

definition window_end :: "string \<Rightarrow> nat \<Rightarrow> nat" where
  "window_end text k = min (window_start k + chunkSize) (length text)"

subsection \<open>Combining the issues of the chunks\<close>

text \<open>An issue reported by the language model.  Its \<open>text\<close> is \<open>None\<close> when the property
  is missing or not a string, in which case \<open>issue.text.trim()\<close> throws.\<close>

record issue =
  issue_text :: "string option"
  issue_problem :: string
  issue_suggestion :: string
  issue_rule :: string

text \<open>What the \<open>try\<close> block of one chunk meets: a call or a \<open>JSON.parse\<close> that throws, a
  reply with no JSON object in it, or a parsed list of issues.\<close>

datatype chunk_reply = Threw | NoMatch | Parsed "issue list"

record issue_state =
  allIssues :: "issue list"
  seenTexts :: "string set"

text \<open>\<open>result.issues.forEach\<close>: an issue whose trimmed text has not been seen is pushed.
  An issue without text throws; the exception leaves the \<open>forEach\<close> and is caught by the
  \<open>catch\<close> of the chunk, which keeps what was pushed before.\<close>

fun add_issues :: "issue list \<Rightarrow> issue_state \<Rightarrow> issue_state" where
  "add_issues [] st = st"
| "add_issues (i # rest) st =
     (case issue_text i of
        None \<Rightarrow> st
      | Some t \<Rightarrow>
          (let textKey = trim t
           in if textKey \<notin> seenTexts st
              then add_issues rest
                     (st\<lparr>seenTexts := insert textKey (seenTexts st), allIssues := allIssues st @ [i]\<rparr>)
              else add_issues rest st))"

fun process_chunk :: "chunk_reply \<Rightarrow> issue_state \<Rightarrow> issue_state" where
  "process_chunk Threw st = st"
| "process_chunk NoMatch st = st"
| "process_chunk (Parsed issues) st = add_issues issues st"

text \<open>\<open>chunks.forEach\<close> over the replies for the chunks, in order.\<close>

fun process_chunks :: "chunk_reply list \<Rightarrow> issue_state \<Rightarrow> issue_state" where
  "process_chunks [] st = st"
| "process_chunks (r # rs) st = process_chunks rs (process_chunk r st)"

definition combine_issues :: "chunk_reply list \<Rightarrow> issue list" where
  "combine_issues replies = allIssues (process_chunks replies \<lparr>allIssues = [], seenTexts = {}\<rparr>)"

text \<open>The key of an issue: its trimmed text.\<close>

definition text_key :: "issue \<Rightarrow> string" where
  "text_key i = (case issue_text i of None \<Rightarrow> [] | Some t \<Rightarrow> trim t)"

text \<open>The issues of a reply that the loop reaches: all of them up to the first one without
  text.\<close>

fun reached_issues :: "chunk_reply \<Rightarrow> issue list" where
  "reached_issues (Parsed issues) = takeWhile (\<lambda>i. issue_text i \<noteq> None) issues"
| "reached_issues _ = []"

text \<open>Keeping the first occurrence of every key and dropping the later ones.\<close>

fun keep_first :: "('a \<Rightarrow> 'k) \<Rightarrow> 'a list \<Rightarrow> 'a list" where
  "keep_first key [] = []"
| "keep_first key (x # xs) = x # keep_first key (filter (\<lambda>y. key y \<noteq> key x) xs)"

section \<open>The assistant: splitting a rule document into chunks\<close>

text \<open>The separator \<open>'\n\n'\<close>.\<close>

definition para_sep :: string where
  "para_sep = [CHR 0x0A, CHR 0x0A]"

fun cons_first :: "char \<Rightarrow> string list \<Rightarrow> string list" where
  "cons_first c [] = [[c]]"
| "cons_first c (p # ps) = (c # p) # ps"

text \<open>\<open>text.split('\n\n')\<close>: the text is cut at every occurrence of the separator, found
  from left to right without overlap.\<close>

fun split_paragraphs :: "string \<Rightarrow> string list" where
  "split_paragraphs [] = [[]]"
| "split_paragraphs [c] = [[c]]"
| "split_paragraphs (c # d # cs) =
     (if c = CHR 0x0A \<and> d = CHR 0x0A then [] # split_paragraphs cs
      else cons_first c (split_paragraphs (d # cs)))"

text \<open>\<open>Array.prototype.join('\n\n')\<close>.\<close>

fun join_paragraphs :: "string list \<Rightarrow> string" where
  "join_paragraphs [] = []"
| "join_paragraphs [p] = p"
| "join_paragraphs (p # q # ps) = p @ para_sep @ join_paragraphs (q # ps)"

text \<open>The \<open>forEach\<close> of \<open>chunkText\<close> over the paragraphs; the state is the list \<open>chunks\<close>
  and the string \<open>currentChunk\<close>.  The bound \<open>maxLength\<close> is a natural number.\<close>

fun chunk_loop :: "nat \<Rightarrow> string list \<Rightarrow> string list \<times> string \<Rightarrow> string list \<times> string" where
  "chunk_loop maxLength [] st = st"
| "chunk_loop maxLength (para # rest) (chunks, currentChunk) =
     (if length (currentChunk @ para) > maxLength \<and> currentChunk \<noteq> []
      then chunk_loop maxLength rest (chunks @ [trim currentChunk], para)
      else chunk_loop maxLength rest
             (chunks, currentChunk @ (if currentChunk \<noteq> [] then para_sep else []) @ para))"

definition chunkText :: "string \<Rightarrow> nat \<Rightarrow> string list" where
  "chunkText text maxLength =
     (let (chunks, currentChunk) = chunk_loop maxLength (split_paragraphs text) ([], [])
      in if currentChunk \<noteq> [] then chunks @ [trim currentChunk] else chunks)"

text \<open>The characters of a string that are not white space.\<close>

definition non_space :: "string \<Rightarrow> string" where
  "non_space s = filter (\<lambda>c. \<not> is_space c) s"

text \<open>A paragraph that \<open>trim\<close> leaves alone and that is not empty.\<close>

definition clean_paragraph :: "string \<Rightarrow> bool" where
  "clean_paragraph p = (p \<noteq> [] \<and> \<not> is_space (hd p) \<and> \<not> is_space (last p))"

text \<open>A chunk made of whole consecutive paragraphs \<open>ps\<close> of the list \<open>P\<close>: several
  paragraphs hold at most \<open>m\<close> characters, separators not counted.\<close>

definition paragraph_run :: "nat \<Rightarrow> string list \<Rightarrow> string list \<Rightarrow> bool" where
  "paragraph_run m P ps =
     (ps \<noteq> [] \<and> sublist ps P \<and> (length ps = 1 \<or> sum_list (map length ps) \<le> m))"

text \<open>The chunk being built after the paragraphs \<open>D\<close>: empty, or the join of the last
  paragraphs of \<open>D\<close>, which passed the length check when there are several.\<close>

definition open_run :: "nat \<Rightarrow> string list \<Rightarrow> string \<Rightarrow> bool" where
  "open_run m D cur =
     (cur = [] \<or>
      (\<exists>ps. ps \<noteq> [] \<and> suffix ps D \<and> cur = join_paragraphs ps \<and>
            (length ps = 1 \<or> sum_list (map length ps) + 2 * (length ps - 2) \<le> m)))"

section \<open>The assistant: regular expressions\<close>

text \<open>
  The regular expressions of the script use literals, alternation, an optional part,
  capturing groups, the anchors \<open>^\<close> and \<open>$\<close>, and \<open>*\<close>, \<open>+\<close> and \<open>+?\<close> on a single
  character class.  They are matched the way the JavaScript engine does it: by
  backtracking, alternatives from left to right, a greedy quantifier trying the longest
  run first and a lazy one the shortest, at the leftmost position of the string where a
  match exists.
\<close>

datatype cclass =
    AnyChar      \<comment> \<open>\<open>.\<close>: any character but a line terminator\<close>
  | WhiteSpace   \<comment> \<open>\<open>\s\<close>\<close>
  | IdChar       \<comment> \<open>\<open>[a-zA-Z0-9-_]\<close>\<close>
  | Quote        \<comment> \<open>\<open>["']\<close>\<close>
  | NotQuote     \<comment> \<open>\<open>[^"']\<close>\<close>

definition is_id_char :: "char \<Rightarrow> bool" where
  "is_id_char c =
     (let n = (of_char c :: nat)
      in (97 \<le> n \<and> n \<le> 122) \<or> (65 \<le> n \<and> n \<le> 90) \<or> (48 \<le> n \<and> n \<le> 57) \<or>
         c = CHR ''-'' \<or> c = CHR ''_'')"

fun in_class :: "cclass \<Rightarrow> char \<Rightarrow> bool" where
  "in_class AnyChar c = (c \<noteq> CHR 0x0A \<and> c \<noteq> CHR 0x0D)"
| "in_class WhiteSpace c = is_space c"
| "in_class IdChar c = is_id_char c"
| "in_class Quote c = (c = CHR 0x22 \<or> c = CHR 0x27)"
| "in_class NotQuote c = (c \<noteq> CHR 0x22 \<and> c \<noteq> CHR 0x27)"

datatype rx =
    Lit string
  | One cclass
  | Star cclass
  | Plus cclass
  | PlusLazy cclass
  | Opt rx
  | Seq rx rx
  | Alt rx rx
  | Group nat rx
  | Bol
  | Eol

text \<open>The ways of reading a run of characters of a class off the front of a string, the
  longest run first: the run read and the rest.\<close>

fun runs :: "(char \<Rightarrow> bool) \<Rightarrow> string \<Rightarrow> (string \<times> string) list" where
  "runs P [] = [([], [])]"
| "runs P (c # cs) =
     (if P c then map (\<lambda>(a, r). (c # a, r)) (runs P cs) @ [([], c # cs)] else [([], c # cs)])"

text \<open>A state of the matcher: the position in the string, the rest of the string from
  there, and the captures made so far, the latest first.\<close>

type_synonym mstate = "nat \<times> string \<times> (nat \<times> string) list"

definition advance :: "mstate \<Rightarrow> string \<times> string \<Rightarrow> mstate" where
  "advance st ar = (case st of (p, s, caps) \<Rightarrow> (p + length (fst ar), snd ar, caps))"

text \<open>All the ways in which an expression matches at a state, in the order in which the
  backtracking engine tries them.\<close>

fun match_rx :: "rx \<Rightarrow> mstate \<Rightarrow> mstate list" where
  "match_rx (Lit l) (p, s, caps) =
     (if prefix l s then [(p + length l, drop (length l) s, caps)] else [])"
| "match_rx (One k) (p, s, caps) =
     (case s of [] \<Rightarrow> [] | c # cs \<Rightarrow> if in_class k c then [(Suc p, cs, caps)] else [])"
| "match_rx (Star k) (p, s, caps) = map (advance (p, s, caps)) (runs (in_class k) s)"
| "match_rx (Plus k) (p, s, caps) =
     map (advance (p, s, caps)) (filter (\<lambda>ar. fst ar \<noteq> []) (runs (in_class k) s))"
| "match_rx (PlusLazy k) (p, s, caps) =
     map (advance (p, s, caps)) (rev (filter (\<lambda>ar. fst ar \<noteq> []) (runs (in_class k) s)))"
| "match_rx (Opt r) st = match_rx r st @ [st]"
| "match_rx (Seq a b) st = concat (map (match_rx b) (match_rx a st))"
| "match_rx (Alt a b) st = match_rx a st @ match_rx b st"
| "match_rx (Group i r) (p, s, caps) =
     map (\<lambda>(p', s', caps'). (p', s', (i, take (p' - p) s) # caps')) (match_rx r (p, s, caps))"
| "match_rx Bol (p, s, caps) = (if p = 0 then [(p, s, caps)] else [])"
| "match_rx Eol (p, s, caps) = (if s = [] then [(p, s, caps)] else [])"

text \<open>\<open>str.match(r)\<close> for an expression without the \<open>g\<close> flag: the captures of the first
  match at the leftmost position that has one, \<open>None\<close> for \<open>null\<close>.\<close>

fun match_from :: "rx \<Rightarrow> nat \<Rightarrow> string \<Rightarrow> (nat \<times> string) list option" where
  "match_from r p s =
     (case match_rx r (p, s, []) of
        (_, _, caps) # _ \<Rightarrow> Some caps
      | [] \<Rightarrow> (case s of [] \<Rightarrow> None | _ # cs \<Rightarrow> match_from r (Suc p) cs))"

definition js_match :: "string \<Rightarrow> rx \<Rightarrow> (nat \<times> string) list option" where
  "js_match s r = match_from r 0 s"

text \<open>A sequence and an alternation of several expressions.\<close>

fun seqs :: "rx list \<Rightarrow> rx" where
  "seqs [] = Lit []"
| "seqs [r] = r"
| "seqs (r # rs) = Seq r (seqs rs)"

fun alts :: "rx list \<Rightarrow> rx" where
  "alts [] = Lit []"
| "alts [r] = r"
| "alts (r # rs) = Alt r (alts rs)"

text \<open>\<open>toLowerCase\<close> on the characters of the 8-bit range: the letters A to Z and the
  accented capitals 0xC0 to 0xDE, the multiplication sign 0xD7 excepted.\<close>

definition lower_char :: "char \<Rightarrow> char" where
  "lower_char c =
     (let n = (of_char c :: nat)
      in if (65 \<le> n \<and> n \<le> 90) \<or> (192 \<le> n \<and> n \<le> 222 \<and> n \<noteq> 215) then char_of (n + 32) else c)"

definition toLowerCase :: "string \<Rightarrow> string" where
  "toLowerCase s = map lower_char s"

subsection \<open>extractDocumentId\<close>

definition doc_path_rx :: rx where
  "doc_path_rx = Seq (Lit ''/document/d/'') (Group 1 (Plus IdChar))"

definition bare_id_rx :: rx where
  "bare_id_rx = seqs [Bol, Group 1 (Plus IdChar), Eol]"

text \<open>The loop over the two patterns; \<open>match[1]\<close> is the text of group 1.\<close>

fun first_group1 :: "rx list \<Rightarrow> string \<Rightarrow> string option" where
  "first_group1 [] url = None"
| "first_group1 (pattern # patterns) url =
     (case js_match url pattern of
        Some caps \<Rightarrow> map_of caps 1
      | None \<Rightarrow> first_group1 patterns url)"

definition extractDocumentId :: "string \<Rightarrow> string option" where
  "extractDocumentId url = first_group1 [doc_path_rx, bare_id_rx] url"

text \<open>At the front of \<open>t\<close>: the literal \<open>lit\<close>, then a character of the class
  \<open>[a-zA-Z0-9-_]\<close>.\<close>

definition lit_then_id :: "string \<Rightarrow> string \<Rightarrow> bool" where
  "lit_then_id lit t =
     (prefix lit t \<and> (case drop (length lit) t of [] \<Rightarrow> False | c # _ \<Rightarrow> is_id_char c))"

text \<open>The first place in \<open>s\<close> where \<open>lit\<close> is followed by a character of the class is
  after \<open>pre\<close>, and \<open>run\<close> is the whole run of such characters there.\<close>

definition first_id_run :: "string \<Rightarrow> string \<Rightarrow> string \<Rightarrow> string \<Rightarrow> string \<Rightarrow> bool" where
  "first_id_run lit s pre run post =
     (s = pre @ lit @ run @ post \<and> run \<noteq> [] \<and> list_all is_id_char run \<and>
      (post = [] \<or> \<not> is_id_char (hd post)) \<and>
      list_all (\<lambda>i. \<not> lit_then_id lit (drop i s)) [0..<length pre])"

text \<open>Nowhere in \<open>s\<close> is \<open>lit\<close> followed by a character of the class.\<close>

definition no_id_run :: "string \<Rightarrow> string \<Rightarrow> bool" where
  "no_id_run lit s = list_all (\<lambda>i. \<not> lit_then_id lit (drop i s)) [0..<Suc (length s)]"

subsection \<open>detectUserIntent\<close>

datatype intent =
    ExtractNewDocs
  | AnalyzeWithComments "string option"
  | AnalyzeWithCommentsPrompt
  | ReviewDocument "string option"
  | SyncToPinecone
  | QuerySpecificDoc "string option"
  | AnalyzeTabs
  | QueryDocuments
  | GeneralChat

text \<open>\<open>/extract|scan|check.*new|update.*docs|newly added|get.*new.*documents/\<close>\<close>

definition extract_rx :: rx where
  "extract_rx =
     alts [Lit ''extract'', Lit ''scan'',
           seqs [Lit ''check'', Star AnyChar, Lit ''new''],
           seqs [Lit ''update'', Star AnyChar, Lit ''docs''],
           Lit ''newly added'',
           seqs [Lit ''get'', Star AnyChar, Lit ''new'', Star AnyChar, Lit ''documents'']]"

text \<open>\<open>/analyze.*comment|review.*comment|check.*comment|add.*comment|highlight.*issue/\<close>\<close>

definition comments_rx :: rx where
  "comments_rx =
     alts [seqs [Lit ''analyze'', Star AnyChar, Lit ''comment''],
           seqs [Lit ''review'', Star AnyChar, Lit ''comment''],
           seqs [Lit ''check'', Star AnyChar, Lit ''comment''],
           seqs [Lit ''add'', Star AnyChar, Lit ''comment''],
           seqs [Lit ''highlight'', Star AnyChar, Lit ''issue'']]"

text \<open>\<open>/https:\/\/docs\.google\.com\/document\/d\/([a-zA-Z0-9-_]+)/\<close>\<close>

definition docs_url :: string where
  "docs_url = ''https://docs.google.com/document/d/''"

definition doc_url_rx :: rx where
  "doc_url_rx = Seq (Lit docs_url) (Group 1 (Plus IdChar))"

text \<open>\<open>/review|analyze|check|feedback|docs\.google\.com/\<close>\<close>

definition review_rx :: rx where
  "review_rx =
     alts [Lit ''review'', Lit ''analyze'', Lit ''check'', Lit ''feedback'', Lit ''docs.google.com'']"

text \<open>\<open>/sync|upload.*pinecone|index|embed/\<close>\<close>

definition sync_rx :: rx where
  "sync_rx =
     alts [Lit ''sync'', seqs [Lit ''upload'', Star AnyChar, Lit ''pinecone''], Lit ''index'',
           Lit ''embed'']"

text \<open>\<open>/(?:document|doc|file).*["']([^"']+)["']|about\s+(.+?)\s+document/\<close>\<close>

definition doc_name_rx :: rx where
  "doc_name_rx =
     Alt (seqs [alts [Lit ''document'', Lit ''doc'', Lit ''file''], Star AnyChar, One Quote,
                Group 1 (Plus NotQuote), One Quote])
         (seqs [Lit ''about'', Plus WhiteSpace, Group 2 (PlusLazy AnyChar), Plus WhiteSpace,
                Lit ''document''])"

text \<open>\<open>/tabs?|sections?|structure|outline/\<close>\<close>

definition tabs_rx :: rx where
  "tabs_rx =
     alts [Seq (Lit ''tab'') (Opt (Lit ''s'')), Seq (Lit ''section'') (Opt (Lit ''s'')),
           Lit ''structure'', Lit ''outline'']"

text \<open>\<open>/how many|list|show|find|search|documents?|comments?|revisions?/\<close>\<close>

definition query_rx :: rx where
  "query_rx =
     alts [Lit ''how many'', Lit ''list'', Lit ''show'', Lit ''find'', Lit ''search'',
           Seq (Lit ''document'') (Opt (Lit ''s'')), Seq (Lit ''comment'') (Opt (Lit ''s'')),
           Seq (Lit ''revision'') (Opt (Lit ''s''))]"

text \<open>\<open>docNameMatch[1] || docNameMatch[2]\<close>\<close>

definition group_or :: "(nat \<times> string) list \<Rightarrow> nat \<Rightarrow> nat \<Rightarrow> string option" where
  "group_or m i j =
     (case map_of m i of
        Some g \<Rightarrow> if g \<noteq> [] then Some g else map_of m j
      | None \<Rightarrow> map_of m j)"

text \<open>The review branch returns only when the message also has a document URL;
  otherwise the later patterns are tried.\<close>

definition detectUserIntent :: "string \<Rightarrow> intent" where
  "detectUserIntent message =
     (let lower = toLowerCase message
      in if js_match lower extract_rx \<noteq> None then ExtractNewDocs
         else if js_match lower comments_rx \<noteq> None then
           (case js_match message doc_url_rx of
              Some docMatch \<Rightarrow> AnalyzeWithComments (map_of docMatch 1)
            | None \<Rightarrow> AnalyzeWithCommentsPrompt)
         else
           (case (if js_match lower review_rx \<noteq> None then js_match message doc_url_rx else None) of
              Some docMatch \<Rightarrow> ReviewDocument (map_of docMatch 1)
            | None \<Rightarrow>
                if js_match lower sync_rx \<noteq> None then SyncToPinecone
                else
                  (case js_match lower doc_name_rx of
                     Some docNameMatch \<Rightarrow> QuerySpecificDoc (group_or docNameMatch 1 2)
                   | None \<Rightarrow>
                       if js_match lower tabs_rx \<noteq> None then AnalyzeTabs
                       else if js_match lower query_rx \<noteq> None then QueryDocuments
                       else GeneralChat)))"

section \<open>The assistant: the entry points\<close>

text \<open>
  The services the script calls are parameters of the model: each is a function of the
  environment that returns a value or throws.  A conversation history is a list of
  messages, each a role and a content.
\<close>

type_synonym history = "(string \<times> string) list"

text \<open>The three lookups gathered for a question.\<close>

record context_info =
  pineconeRules :: "string list"
  driveRules :: "string list"
  relevantDocs :: "string list"

text \<open>A user message: a string, \<open>undefined\<close>, \<open>null\<close>, or a value of another type.\<close>

datatype js_message = Str string | Undefined | Null | NotString

text \<open>The parsed body of a POST: \<open>null\<close>, or a value with its \<open>message\<close> and its
  \<open>conversationHistory\<close>, which may be missing.\<close>

datatype post_body = NullBody | Body js_message "history option"

record env =
  fault_message :: "fault \<Rightarrow> string"
  json_parse :: "string \<Rightarrow> js_error + post_body"
  rules_folder_id :: "string option"
  open_document :: "string \<Rightarrow> js_error + string \<times> string"
  embed_and_query :: "string \<Rightarrow> nat \<Rightarrow> js_error + string list"
  search_folder :: "string \<Rightarrow> js_error + string list"
  list_folder :: "js_error + string list"
  analyzeDocumentWithRules ::
    "string \<times> string \<Rightarrow> string list \<times> string list \<Rightarrow> history \<Rightarrow> js_error + string"
  generateConversationalResponse :: "string \<Rightarrow> context_info \<Rightarrow> history \<Rightarrow> js_error + string"

definition reviewKeywords :: "string list" where
  "reviewKeywords =
     [''review'', ''analyze'', ''check'', ''feedback'', ''docs.google.com'', ''document/d/'',
      ''look at this doc'', ''can you review'']"

text \<open>\<open>message.toLowerCase()\<close> throws when the message is not a string.\<close>

fun lower_case_fault :: "js_message \<Rightarrow> fault" where
  "lower_case_fault Undefined = ReadOfUndefined ''toLowerCase''"
| "lower_case_fault Null = ReadOfNull ''toLowerCase''"
| "lower_case_fault _ = NotAFunction ''toLowerCase''"

definition isDocumentReviewRequest :: "js_message \<Rightarrow> js_error + bool" where
  "isDocumentReviewRequest message =
     (case message of
        Str m \<Rightarrow>
          (let lowerMessage = toLowerCase m
           in Inr (list_ex (\<lambda>keyword. str_includes lowerMessage keyword) reviewKeywords))
      | _ \<Rightarrow> Inl (TypeError (lower_case_fault message)))"

text \<open>What a response carries besides \<open>success\<close> and \<open>message\<close>: nothing, the \<open>context\<close> of
  an answer, or the \<open>documentTitle\<close> and the two counts of \<open>rulesUsed\<close> of a review.\<close>

datatype response_extra = NoExtra | WithContext context_info | WithReview string nat nat

record response =
  success :: bool
  message :: string
  extra :: response_extra

text \<open>\<open>try { body } catch (error) { handler }\<close>\<close>

definition try_catch :: "js_error + 'a \<Rightarrow> (js_error \<Rightarrow> js_error + 'a) \<Rightarrow> js_error + 'a" where
  "try_catch body handler = (case body of Inl error \<Rightarrow> handler error | Inr v \<Rightarrow> Inr v)"

text \<open>Sequencing: a statement that throws ends the block.\<close>

definition and_then :: "js_error + 'a \<Rightarrow> ('a \<Rightarrow> js_error + 'b) \<Rightarrow> js_error + 'b" where
  "and_then m f = (case m of Inl error \<Rightarrow> Inl error | Inr v \<Rightarrow> f v)"

text \<open>The result of \<open>readGoogleDoc\<close>: the title and the text, or the error string.\<close>

datatype doc_content = DocRead string string | DocError string

definition readGoogleDoc :: "env \<Rightarrow> string \<Rightarrow> js_error + doc_content" where
  "readGoogleDoc e docId =
     try_catch (and_then (open_document e docId) (\<lambda>(title, body). Inr (DocRead title body)))
       (\<lambda>error. Inr (DocError (error_toString (fault_message e) error)))"

definition retrieveFromPinecone :: "env \<Rightarrow> string \<Rightarrow> nat \<Rightarrow> js_error + string list" where
  "retrieveFromPinecone e txt topK =
     try_catch (embed_and_query e (substring txt 0 1000) topK) (\<lambda>error. Inr [])"

definition searchRulesInDrive :: "env \<Rightarrow> string \<Rightarrow> js_error + string list" where
  "searchRulesInDrive e query =
     (if rules_folder_id e = None then Inr []
      else try_catch (search_folder e query) (\<lambda>error. Inr []))"

definition listRuleDocuments :: "env \<Rightarrow> js_error + string list" where
  "listRuleDocuments e =
     (if rules_folder_id e = None then Inr []
      else try_catch (list_folder e) (\<lambda>error. Inr []))"

definition gatherContext :: "env \<Rightarrow> string \<Rightarrow> js_error + context_info" where
  "gatherContext e query =
     and_then (try_catch (retrieveFromPinecone e query 5) (\<lambda>error. Inr [])) (\<lambda>p.
     and_then (try_catch (searchRulesInDrive e query) (\<lambda>error. Inr [])) (\<lambda>d.
     and_then (try_catch (listRuleDocuments e) (\<lambda>error. Inr [])) (\<lambda>r.
       Inr \<lparr>pineconeRules = p, driveRules = d, relevantDocs = r\<rparr>)))"

definition handleConversationalQuery :: "env \<Rightarrow> string \<Rightarrow> history \<Rightarrow> js_error + response" where
  "handleConversationalQuery e userMessage conversationHistory =
     try_catch
       (and_then (gatherContext e userMessage) (\<lambda>context.
        and_then (generateConversationalResponse e userMessage context conversationHistory) (\<lambda>reply.
          Inr \<lparr>success = True, message = reply, extra = WithContext context\<rparr>)))
       (\<lambda>error. Inr \<lparr>success = False,
                      message =
                        ''Error processing your question: '' @ error_toString (fault_message e) error,
                      extra = NoExtra\<rparr>)"

definition formatErrorMessage :: "string \<Rightarrow> string \<Rightarrow> string" where
  "formatErrorMessage docId error =
     ''DOCUMENT UNAVAILABLE: '' @ docId @ [CHR 0x0A] @
     ''REASON: '' @ error @ [CHR 0x0A] @
     ''ACTION REQUIRED: Please grant access to this document or share it publicly. I cannot analyze content I cannot read.''"

definition reviewDocument :: "env \<Rightarrow> string \<Rightarrow> history \<Rightarrow> js_error + response" where
  "reviewDocument e docId conversationHistory =
     try_catch
       (and_then (readGoogleDoc e docId) (\<lambda>docContent.
          case docContent of
            DocError error \<Rightarrow>
              Inr \<lparr>success = False, message = formatErrorMessage docId error, extra = NoExtra\<rparr>
          | DocRead title body \<Rightarrow>
              and_then (retrieveFromPinecone e body 10) (\<lambda>pineconeRules.
              and_then (searchRulesInDrive e body) (\<lambda>driveRules.
              and_then (analyzeDocumentWithRules e (title, body) (pineconeRules, driveRules)
                          conversationHistory) (\<lambda>analysis.
                Inr \<lparr>success = True, message = analysis,
                     extra = WithReview title (length pineconeRules) (length driveRules)\<rparr>)))))
       (\<lambda>error. Inr \<lparr>success = False,
                      message = ''Error: '' @ error_toString (fault_message e) error,
                      extra = NoExtra\<rparr>)"

text \<open>\<open>processMessage\<close>; a message that is not a string has thrown in
  \<open>isDocumentReviewRequest\<close>, so that only a string reaches the second step.\<close>

definition processMessage :: "env \<Rightarrow> js_message \<Rightarrow> history \<Rightarrow> js_error + response" where
  "processMessage e userMessage conversationHistory =
     try_catch
       (and_then (isDocumentReviewRequest userMessage) (\<lambda>isDocReview.
          case userMessage of
            Str m \<Rightarrow>
              (case (if isDocReview then extractDocumentId m else None) of
                 Some docId \<Rightarrow> reviewDocument e docId conversationHistory
               | None \<Rightarrow> handleConversationalQuery e m conversationHistory)
          | _ \<Rightarrow> Inl (TypeError (lower_case_fault userMessage))))
       (\<lambda>error. Inr \<lparr>success = False,
                      message = ''Error: '' @ error_toString (fault_message e) error,
                      extra = NoExtra\<rparr>)"

text \<open>\<open>doPost\<close>; \<open>contents\<close> is \<open>e.postData.contents\<close>, \<open>None\<close> when the event has no post
  data.  The result is the object that is serialised into the text output.\<close>

definition doPost :: "env \<Rightarrow> string option \<Rightarrow> js_error + response" where
  "doPost e contents =
     try_catch
       (case contents of
          None \<Rightarrow> Inl (undefined_read ''contents'')
        | Some c \<Rightarrow>
            and_then (json_parse e c) (\<lambda>data.
              case data of
                NullBody \<Rightarrow> Inl (TypeError (ReadOfNull ''message''))
              | Body msg hist \<Rightarrow>
                  processMessage e msg (case hist of None \<Rightarrow> [] | Some h \<Rightarrow> h)))
       (\<lambda>error. Inr \<lparr>success = False, message = error_toString (fault_message e) error,
                      extra = NoExtra\<rparr>)"

text \<open>A response that reports the error \<open>err\<close>: \<open>success\<close> is false and the message ends
  with the string of the error.\<close>

definition reports :: "env \<Rightarrow> response \<Rightarrow> js_error \<Rightarrow> bool" where
  "reports e r err =
     (\<not> success r \<and> suffix (error_toString (fault_message e) err) (message r))"

text \<open>The result of a best-effort lookup: the empty list when the call throws.\<close>

definition or_empty :: "js_error + 'a list \<Rightarrow> 'a list" where
  "or_empty r = (case r of Inl error \<Rightarrow> [] | Inr v \<Rightarrow> v)"

text \<open>The context gathered for a question, in terms of the three service calls.\<close>

definition gathered :: "env \<Rightarrow> string \<Rightarrow> context_info" where
  "gathered e query =
     \<lparr>pineconeRules = or_empty (embed_and_query e (substring query 0 1000) 5),
      driveRules = (if rules_folder_id e = None then [] else or_empty (search_folder e query)),
      relevantDocs = (if rules_folder_id e = None then [] else or_empty (list_folder e))\<rparr>"

text \<open>The route a string message takes in \<open>processMessage\<close>: the document to review, if
  any.\<close>

definition review_target :: "string \<Rightarrow> string option" where
  "review_target m =
     (if list_ex (\<lambda>keyword. str_includes (toLowerCase m) keyword) reviewKeywords
      then extractDocumentId m else None)"

text \<open>An environment for examples: the embedding call always throws, the answer call
  throws on the message \<open>fail\<close>, no document can be opened, and the POST body \<open>oops\<close> is not
  JSON.\<close>

fun sample_wording :: "fault \<Rightarrow> string" where
  "sample_wording (ReadOfUndefined p) =
     ''Cannot read properties of undefined (reading '' @ [CHR 0x27] @ p @ [CHR 0x27] @ '')''"
| "sample_wording (ReadOfNull p) =
     ''Cannot read properties of null (reading '' @ [CHR 0x27] @ p @ [CHR 0x27] @ '')''"
| "sample_wording (NotAFunction p) = ''message.'' @ p @ '' is not a function''"

definition sample_env :: env where
  "sample_env =
     \<lparr>fault_message = sample_wording,
      json_parse = (\<lambda>c. if c = ''oops'' then Inl (SyntaxError ''Unexpected token o in JSON'')
                        else if c = ''null'' then Inr NullBody
                        else Inr (Body (Str c) None)),
      rules_folder_id = None,
      open_document = (\<lambda>d. Inl (Error ''Document is missing'')),
      embed_and_query = (\<lambda>t k. Inl (Error ''Failed to generate embedding: quota'')),
      search_folder = (\<lambda>q. Inr []),
      list_folder = Inr [],
      analyzeDocumentWithRules = (\<lambda>d r h. Inr ''No issues found.''),
      generateConversationalResponse =
        (\<lambda>m c h. if m = ''fail'' then Inl (Error ''Failed to get response from Gemini: timeout'')
                 else Inr ''Hello!'')\<rparr>"

section \<open>Properties\<close>

subsection \<open>Numbers\<close>









text \<open>The exponent that \<open>floor_log2\<close> computes is the one of its specification, so that a
  rounding can be evaluated from the exponent.\<close>

lemma pow2_powi: "pow2 q = 2 powi q"
  by (simp add: pow2_def power_int_def power_one_over)

lemma pow2_pos: "0 < pow2 q"
  by (simp add: pow2_powi)

lemma pow2_mono: "q \<le> q' \<Longrightarrow> pow2 q \<le> pow2 q'"
  by (simp add: pow2_powi power_int_increasing)

lemma bitlen_rat_bounds:
  assumes "0 < (p::int)"
  shows "pow2 (bitlen p - 1) \<le> of_int p" "of_int p < pow2 (bitlen p)"
proof -
  from assms have b: "1 \<le> bitlen p" by (auto simp: bitlen_alt_def)
  from bitlen_bounds[OF assms] have 1: "2 ^ nat (bitlen p - 1) \<le> p" and 2: "p < 2 ^ nat (bitlen p)"
    by blast+
  from 1 have "(of_int (2 ^ nat (bitlen p - 1)) :: rat) \<le> of_int p"
    by (simp only: of_int_le_iff)
  then show "pow2 (bitlen p - 1) \<le> of_int p"
    using b by (simp add: pow2_def)
  from 2 have "(of_int p :: rat) < of_int (2 ^ nat (bitlen p))"
    by (simp only: of_int_less_iff)
  then show "of_int p < pow2 (bitlen p)"
    using b by (simp add: pow2_def)
qed

lemma pow2_add: "pow2 (x + y) = pow2 x * pow2 y"
  by (simp add: pow2_powi power_int_add)

lemma pow2_diff: "pow2 (x - y) = pow2 x / pow2 y"
  by (simp add: pow2_powi power_int_diff)

lemma floor_log2_bounds:
  assumes "0 < a"
  shows "pow2 (floor_log2 a) \<le> a \<and> a < pow2 (floor_log2 a + 1)"
proof -
  obtain p d where q: "quotient_of a = (p, d)" by (cases "quotient_of a")
  from quotient_of_denom_pos[OF q] have d: "0 < d" .
  from quotient_of_div[OF q] have a: "a = of_int p / of_int d" .
  from assms a d have p: "0 < p"
    by (simp add: zero_less_divide_iff)
  let ?e = "bitlen p - bitlen d"
  note bp = bitlen_rat_bounds[OF p] and bd = bitlen_rat_bounds[OF d]
  have dpos: "0 < (of_int d :: rat)" using d by simp
  have up: "a < pow2 (?e + 1)"
  proof -
    have "a < pow2 (bitlen p) / of_int d"
      unfolding a using bp(2) dpos by (simp add: divide_strict_right_mono)
    also have "\<dots> \<le> pow2 (bitlen p) / pow2 (bitlen d - 1)"
      using bd(1) pow2_pos[of "bitlen p"] pow2_pos[of "bitlen d - 1"]
      by (simp add: frac_le)
    also have "\<dots> = pow2 (?e + 1)"
      using pow2_diff[of "bitlen p" "bitlen d - 1"] by (simp add: algebra_simps)
    finally show ?thesis .
  qed
  have low: "pow2 (?e - 1) \<le> a"
  proof -
    have "pow2 (?e - 1) = pow2 (bitlen p - 1) / pow2 (bitlen d)"
      using pow2_diff[of "bitlen p - 1" "bitlen d"] by (simp add: algebra_simps)
    also have "\<dots> \<le> of_int p / of_int d"
      using bp(1) bd(2) dpos pow2_pos[of "bitlen p - 1"]
      by (intro frac_le) simp_all
    finally show ?thesis by (simp add: a)
  qed
  show ?thesis
  proof (cases "pow2 ?e \<le> a")
    case True
    then have "floor_log2 a = ?e" by (simp add: floor_log2_def q)
    with True up show ?thesis by simp
  next
    case False
    then have "floor_log2 a = ?e - 1" by (simp add: floor_log2_def q)
    with False low show ?thesis by simp
  qed
qed

lemma floor_log2_eqI:
  assumes "pow2 e \<le> a" "a < pow2 (e + 1)"
  shows "floor_log2 a = e"
proof -
  have a: "0 < a" using assms(1) pow2_pos[of e] by linarith
  note b = floor_log2_bounds[OF a]
  let ?f = "floor_log2 a"
  have "\<not> ?f < e"
  proof
    assume "?f < e"
    then have "pow2 (?f + 1) \<le> pow2 e" by (simp add: pow2_mono)
    with b assms show False by linarith
  qed
  moreover have "\<not> e < ?f"
  proof
    assume "e < ?f"
    then have "pow2 (e + 1) \<le> pow2 ?f" by (simp add: pow2_mono)
    with b assms show False by linarith
  qed
  ultimately show ?thesis by linarith
qed

lemma to_double_eval:
  assumes "pow2 e \<le> \<bar>x\<bar>" "\<bar>x\<bar> < pow2 (e + 1)"
  shows "to_double neg0 x =
     (let q = max (e - 52) (- 1074);
          n = round_half_even (\<bar>x\<bar> / pow2 q); r = of_int n * pow2 q
      in if 2 ^ 1024 \<le> r then inf_of (x < 0)
         else if n = 0 then zero_of (x < 0)
         else Num (if x < 0 then - r else r))"
proof -
  have x: "x \<noteq> 0" using assms(1) pow2_pos[of e] by auto
  have e: "floor_log2 \<bar>x\<bar> = e" using assms by (rule floor_log2_eqI)
  show ?thesis
    unfolding to_double_def Let_def e by (simp only: x if_False)
qed


lemma floor_numeral_divide: "\<lfloor>(numeral a :: rat) / numeral b\<rfloor> = numeral a div numeral b"
  using floor_divide_of_int_eq[of "numeral a" "numeral b", where ?'a = rat] by simp

lemma sample_doubles:
  "to_double neg0 2 = Num 2" "to_double neg0 6 = Num 6" "to_double neg0 12 = Num 12"
  "to_double neg0 50 = Num 50" "to_double neg0 (1 / 2) = Num (1 / 2)"
  by (simp_all add: to_double_eval[of 1] to_double_eval[of 2] to_double_eval[of 3]
      to_double_eval[of 5] to_double_eval[of "- 1"] pow2_def round_half_even_def
      zero_of_def inf_of_def)


subsection \<open>Period-over-period changes\<close>


















subsection \<open>Parsing a report response\<close>

lemma or_zero_not_NaN: "or_zero n \<noteq> NaN"
  by (cases n) (simp_all add: or_zero_def)

lemma or_zero_cases: "n \<noteq> NZero \<Longrightarrow> or_zero n = (if n = NaN then Num 0 else n)"
  by (cases n) (simp_all add: or_zero_def)

lemma literal_value_not_NZero: "literal_value x \<noteq> NZero"
  by (simp add: literal_value_def split: jsnum.splits)

lemma parseFloat_not_NZero: "parseFloat v \<noteq> NZero"
  by (simp add: parseFloat_def Let_def literal_value_not_NZero split: prod.splits option.splits)

lemma parseInt_not_NZero: "parseInt v \<noteq> NZero"
  by (simp add: parseInt_def Let_def literal_value_not_NZero split: prod.splits)

lemma sample_literals:
  "literal_value 120 = Num 120"
  "literal_value (9 / 20) = Num (8106479329266893 / 18014398509481984)"
  by (simp_all add: literal_value_def to_double_eval[of 6] to_double_eval[of "- 2"] pow2_def
      round_half_even_def zero_of_def inf_of_def Let_def floor_numeral_divide)

lemma metric_value_parse:
  "metric_value h v =
     (let n = (if str_includes h ''Rate'' \<or> str_includes h ''Duration'' \<or> str_includes h ''Per''
               then parseFloat v else parseInt v)
      in if n = NaN then Num 0 else n)"
  by (simp add: metric_value_def or_zero_cases parseFloat_not_NZero parseInt_not_NZero)

lemma metric_value_not_NaN: "metric_value h v \<noteq> NaN"
  by (simp add: metric_value_def or_zero_not_NaN)

lemma set_metrics_ok:
  "length hs \<le> length vs \<Longrightarrow> \<exists>out. set_metrics hs vs result = Inr out"
  by (induction hs vs result rule: set_metrics.induct) simp_all

lemma set_dimensions_ok:
  "length hs \<le> length vs \<Longrightarrow> \<exists>out. set_dimensions hs vs result = Inr out"
  by (induction hs vs result rule: set_dimensions.induct) simp_all

lemma set_metrics_other:
  "set_metrics hs vs result = Inr out \<Longrightarrow> h \<notin> set hs \<Longrightarrow> out h = result h"
  by (induction hs vs result rule: set_metrics.induct) (auto split: if_splits)

lemma set_metrics_field:
  "set_metrics hs vs result = Inr out \<Longrightarrow> h \<in> set hs \<Longrightarrow>
   \<exists>j < length hs. hs ! j = h \<and> out h = Some (JNum (metric_value h (vs ! j)))"
proof (induction hs vs result rule: set_metrics.induct)
  case (3 h' hs v vs result)
  have run: "set_metrics hs vs (result(h' \<mapsto> JNum (metric_value h' v))) = Inr out"
    using 3(2) by simp
  show ?case
  proof (cases "h \<in> set hs")
    case True
    from 3(1)[OF run True] obtain j where
      j: "j < length hs" "hs ! j = h" "out h = Some (JNum (metric_value h (vs ! j)))"
      by blast
    have "Suc j < length (h' # hs) \<and> (h' # hs) ! Suc j = h \<and>
          out h = Some (JNum (metric_value h ((v # vs) ! Suc j)))"
      using j by simp
    then show ?thesis by blast
  next
    case False
    with 3(3) have eq: "h = h'" by simp
    have "out h = (result(h' \<mapsto> JNum (metric_value h' v))) h"
      using set_metrics_other[OF run False] .
    then have "0 < length (h' # hs) \<and> (h' # hs) ! 0 = h \<and>
          out h = Some (JNum (metric_value h ((v # vs) ! 0)))"
      using eq by simp
    then show ?thesis by blast
  qed
qed simp_all

lemma parse_row_ok:
  assumes "row_shape_ok response row"
  shows "\<exists>out. parse_row response row = Inr out"
proof -
  obtain r1 where r1:
    "(case (dimensionValues row, dimensionHeaders response) of
        (Some vs, Some hs) \<Rightarrow> set_dimensions hs vs Map.empty
      | _ \<Rightarrow> Inr Map.empty) = Inr r1"
  proof (cases "dimensionValues row")
    case None
    then show ?thesis using that by simp
  next
    case (Some vs)
    show ?thesis
    proof (cases "dimensionHeaders response")
      case None
      then show ?thesis using that Some by simp
    next
      case (Some hs)
      with \<open>dimensionValues row = Some vs\<close> assms have "length hs \<le> length vs"
        by (simp add: row_shape_ok_def)
      from set_dimensions_ok[OF this, of Map.empty] show ?thesis
        using that Some \<open>dimensionValues row = Some vs\<close> by auto
    qed
  qed
  have "\<exists>out. (case (metricValues row, metricHeaders response) of
             (Some vs, Some hs) \<Rightarrow> set_metrics hs vs r1
           | _ \<Rightarrow> Inr r1) = Inr out"
  proof (cases "metricValues row")
    case None
    then show ?thesis by simp
  next
    case (Some vs)
    show ?thesis
    proof (cases "metricHeaders response")
      case None
      then show ?thesis using Some by simp
    next
      case (Some hs)
      with \<open>metricValues row = Some vs\<close> assms have "length hs \<le> length vs"
        by (simp add: row_shape_ok_def)
      from set_metrics_ok[OF this, of r1] show ?thesis
        using Some \<open>metricValues row = Some vs\<close> by simp
    qed
  qed
  then show ?thesis
    unfolding parse_row_def r1 by simp
qed

lemma parse_row_metric:
  assumes "parse_row response row = Inr out"
    and "metricValues row = Some vs" and "metricHeaders response = Some hs" and "h \<in> set hs"
  shows "\<exists>j < length hs. hs ! j = h \<and> out h = Some (JNum (metric_value h (vs ! j)))"
proof -
  from assms(1,2,3) obtain r1 where "set_metrics hs vs r1 = Inr out"
    by (auto simp: parse_row_def split: sum.splits)
  from set_metrics_field[OF this assms(4)] show ?thesis .
qed

lemma map_rows_ok:
  "(\<And>x. x \<in> set xs \<Longrightarrow> \<exists>y. f x = Inr y) \<Longrightarrow>
   \<exists>ys. map_rows f xs = Inr ys \<and> length ys = length xs \<and> (\<forall>i < length xs. f (xs ! i) = Inr (ys ! i))"
proof (induction xs)
  case (Cons x xs)
  then obtain y where y: "f x = Inr y" by auto
  from Cons obtain ys where ys: "map_rows f xs = Inr ys" "length ys = length xs"
     "\<forall>i < length xs. f (xs ! i) = Inr (ys ! i)" by auto
  show ?case using y ys by (auto simp: nth_Cons split: nat.splits)
qed simp

lemma parseGA4Response_rows:
  "parseGA4Response response = map_rows (parse_row response) (rows_of response)"
  by (cases "rows response"; cases "rows_of response")
     (auto simp: parseGA4Response_def rows_of_def)

text \<open>
  Claim C10.  On a response of the expected shape \<open>parseGA4Response\<close> returns a list, one
  object per row; the list is empty when \<open>rows\<close> is missing or empty.  In every row
  that has metric values, every metric header names a field that is a number and not NaN:
  the value at an index of that header, read by \<open>parseFloat\<close> when the name contains
  \<open>Rate\<close>, \<open>Duration\<close> or \<open>Per\<close> and by \<open>parseInt\<close> otherwise, with 0 in place
  of NaN.
\<close>

theorem parseGA4Response_total:
  assumes "list_all (row_shape_ok response) (rows_of response)"
  shows "\<exists>out. parseGA4Response response = Inr out \<and>
           length out = length (rows_of response) \<and>
           ((rows response = None \<or> rows response = Some []) \<longrightarrow> out = []) \<and>
           (\<forall>i < length out. \<forall>vs hs.
               metricValues (rows_of response ! i) = Some vs \<and> metricHeaders response = Some hs \<longrightarrow>
               (\<forall>h \<in> set hs. \<exists>j < length hs. hs ! j = h \<and>
                   (out ! i) h = Some (JNum (metric_value h (vs ! j))) \<and>
                   metric_value h (vs ! j) \<noteq> NaN \<and>
                   metric_value h (vs ! j) =
                     (let n = (if str_includes h ''Rate'' \<or> str_includes h ''Duration'' \<or>
                                  str_includes h ''Per''
                               then parseFloat (vs ! j) else parseInt (vs ! j))
                      in if n = NaN then Num 0 else n)))"
proof -
  let ?rs = "rows_of response"
  have "\<exists>y. parse_row response x = Inr y" if "x \<in> set ?rs" for x
    using assms that parse_row_ok[of response x] by (simp add: list_all_iff)
  from map_rows_ok[of ?rs "parse_row response", OF this] obtain out where
    out: "map_rows (parse_row response) ?rs = Inr out" "length out = length ?rs"
      "\<forall>i < length ?rs. parse_row response (?rs ! i) = Inr (out ! i)"
    by blast
  have res: "parseGA4Response response = Inr out"
    using out(1) by (simp add: parseGA4Response_rows)
  have empty: "(rows response = None \<or> rows response = Some []) \<longrightarrow> out = []"
    using out(2) by (auto simp: rows_of_def)
  have metric: "\<exists>j < length hs. hs ! j = h \<and>
       (out ! i) h = Some (JNum (metric_value h (vs ! j))) \<and> metric_value h (vs ! j) \<noteq> NaN \<and>
                   metric_value h (vs ! j) =
                     (let n = (if str_includes h ''Rate'' \<or> str_includes h ''Duration'' \<or>
                                  str_includes h ''Per''
                               then parseFloat (vs ! j) else parseInt (vs ! j))
                      in if n = NaN then Num 0 else n)"
    if "i < length out" "metricValues (?rs ! i) = Some vs" "metricHeaders response = Some hs"
       "h \<in> set hs" for i vs hs h
  proof -
    have "parse_row response (?rs ! i) = Inr (out ! i)"
      using out(2,3) that(1) by simp
    from parse_row_metric[OF this that(2,3,4)] show ?thesis
      using metric_value_not_NaN metric_value_parse by blast
  qed
  show ?thesis
  proof (intro exI[of _ out] conjI)
    show "parseGA4Response response = Inr out" by (rule res)
    show "length out = length ?rs" by (rule out(2))
    show "(rows response = None \<or> rows response = Some []) \<longrightarrow> out = []" by (rule empty)
    show "\<forall>i < length out. \<forall>vs hs.
               metricValues (?rs ! i) = Some vs \<and> metricHeaders response = Some hs \<longrightarrow>
               (\<forall>h \<in> set hs. \<exists>j < length hs. hs ! j = h \<and>
                   (out ! i) h = Some (JNum (metric_value h (vs ! j))) \<and>
                   metric_value h (vs ! j) \<noteq> NaN \<and>
                   metric_value h (vs ! j) =
                     (let n = (if str_includes h ''Rate'' \<or> str_includes h ''Duration'' \<or>
                                  str_includes h ''Per''
                               then parseFloat (vs ! j) else parseInt (vs ! j))
                      in if n = NaN then Num 0 else n))"
      using metric by blast
  qed
qed

theorem parseGA4Response_total_witness:
  "list_all (row_shape_ok
       \<lparr>rows = Some [\<lparr>dimensionValues = Some [''Organic Search''],
                      metricValues = Some [''120'', ''0.45'', ''n/a'']\<rparr>],
        dimensionHeaders = Some [''sessionDefaultChannelGrouping''],
        metricHeaders = Some [''sessions'', ''bounceRate'', ''newUsers'']\<rparr>)
     (rows_of
       \<lparr>rows = Some [\<lparr>dimensionValues = Some [''Organic Search''],
                      metricValues = Some [''120'', ''0.45'', ''n/a'']\<rparr>],
        dimensionHeaders = Some [''sessionDefaultChannelGrouping''],
        metricHeaders = Some [''sessions'', ''bounceRate'', ''newUsers'']\<rparr>) \<and>
   (\<exists>out. parseGA4Response
       \<lparr>rows = Some [\<lparr>dimensionValues = Some [''Organic Search''],
                      metricValues = Some [''120'', ''0.45'', ''n/a'']\<rparr>],
        dimensionHeaders = Some [''sessionDefaultChannelGrouping''],
        metricHeaders = Some [''sessions'', ''bounceRate'', ''newUsers'']\<rparr> = Inr out \<and>
      length out = 1 \<and>
      (out ! 0) ''sessions'' = Some (JNum (Num 120)) \<and>
      (out ! 0) ''bounceRate'' = Some (JNum (Num (8106479329266893 / 18014398509481984))) \<and>
      (out ! 0) ''newUsers'' = Some (JNum (Num 0))) \<and>
   parseGA4Response \<lparr>rows = None, dimensionHeaders = None, metricHeaders = None\<rparr> = Inr []"
proof -
  let ?r = "\<lparr>rows = Some [\<lparr>dimensionValues = Some [''Organic Search''],
                      metricValues = Some [''120'', ''0.45'', ''n/a'']\<rparr>],
        dimensionHeaders = Some [''sessionDefaultChannelGrouping''],
        metricHeaders = Some [''sessions'', ''bounceRate'', ''newUsers'']\<rparr>"
  let ?e = "\<lparr>rows = None, dimensionHeaders = None, metricHeaders = None\<rparr>"
  have h: "list_all (row_shape_ok ?r) (rows_of ?r)"
    by (simp add: rows_of_def row_shape_ok_def)
  have e: "list_all (row_shape_ok ?e) (rows_of ?e)"
    by (simp add: rows_of_def)
  have mv: "metric_value ''sessions'' ''120'' = Num 120"
    "metric_value ''bounceRate'' ''0.45'' = Num (8106479329266893 / 18014398509481984)"
    "metric_value ''newUsers'' ''n/a'' = Num 0"
    by (simp_all add: metric_value_def parseFloat_def parseInt_def take_decimal_def
        take_exponent_def is_digit_def is_space_def or_zero_def digits_val_def hex_num_def hex_val_def
        sample_literals)
  have ev: "parseGA4Response ?r =
      Inr [[''sessionDefaultChannelGrouping'' \<mapsto> JStr ''Organic Search'',
            ''sessions'' \<mapsto> JNum (Num 120),
            ''bounceRate'' \<mapsto> JNum (Num (8106479329266893 / 18014398509481984)),
            ''newUsers'' \<mapsto> JNum (Num 0)]]"
    by (simp add: parseGA4Response_def parse_row_def mv)
  from parseGA4Response_total[OF e] have "parseGA4Response ?e = Inr []"
    by auto
  then show ?thesis
    using h parseGA4Response_total[OF h] by (simp add: ev)
qed

subsection \<open>Enriched rows\<close>

lemma or_else_number:
  "number_or_missing x \<Longrightarrow> to_number (Some (or_else x (JNum (Num 0)))) = or_zero (to_number x)"
  by (cases x rule: number_or_missing.cases) (simp_all add: or_else_def or_zero_def)

lemma js_gt_zero_not_zero: "js_gt n (Num 0) \<Longrightarrow> \<not> is_zero n"
  by (auto simp: js_gt_def is_zero_def split: if_splits)

lemma enrich_row_frame: "k \<notin> computed_fields \<Longrightarrow> enrich_row row k = row k"
  by (simp add: enrich_row_def computed_fields_def)

lemma enrich_row_dom: "dom (enrich_row row) = dom row \<union> computed_fields"
  by (auto simp: enrich_row_def computed_fields_def)

lemma enrich_row_returningUsers:
  assumes "number_or_missing (row ''totalUsers'')" "number_or_missing (row ''newUsers'')"
  shows "enrich_row row ''returningUsers'' =
           Some (JNum (js_sub (or_zero (to_number (row ''totalUsers'')))
                              (or_zero (to_number (row ''newUsers'')))))"
  using assms by (simp add: enrich_row_def or_else_number)

lemma enrich_row_avgEngagementPerSession:
  assumes "number_or_missing (row ''userEngagementDuration'')"
  shows "enrich_row row ''avgEngagementPerSession'' =
           Some (JNum (if js_gt (to_number (row ''sessions'')) (Num 0)
                       then js_div (or_zero (to_number (row ''userEngagementDuration'')))
                                   (to_number (row ''sessions''))
                       else Num 0))"
  using assms by (simp add: enrich_row_def or_else_number)

text \<open>The rows that reach \<open>enrichMetrics\<close> come from \<open>parseGA4Response\<close>: their fields are
  the headers of the report, so that they carry no computed field unless a header has
  that name.\<close>

lemma set_dimensions_dom:
  "set_dimensions hs vs result = Inr out \<Longrightarrow> dom out = dom result \<union> set hs"
  by (induction hs vs result rule: set_dimensions.induct) auto

lemma set_metrics_dom:
  "set_metrics hs vs result = Inr out \<Longrightarrow> dom out = dom result \<union> set hs"
  by (induction hs vs result rule: set_metrics.induct) auto

lemma parse_row_dom:
  assumes "parse_row response row = Inr out"
  shows "dom out \<subseteq> set (case dimensionHeaders response of None \<Rightarrow> [] | Some hs \<Rightarrow> hs) \<union>
                   set (case metricHeaders response of None \<Rightarrow> [] | Some hs \<Rightarrow> hs)"
  using assms set_dimensions_dom set_metrics_dom
  by (fastforce simp: parse_row_def split: option.splits sum.splits)

lemma map_rows_result:
  "map_rows f xs = Inr ys \<Longrightarrow> y \<in> set ys \<Longrightarrow> \<exists>x \<in> set xs. f x = Inr y"
  by (induction xs arbitrary: ys) (auto split: sum.splits)

lemma parseGA4Response_no_computed_field:
  assumes "parseGA4Response response = Inr out" and "row \<in> set out"
    and "set (case dimensionHeaders response of None \<Rightarrow> [] | Some hs \<Rightarrow> hs) \<inter> computed_fields = {}"
    and "set (case metricHeaders response of None \<Rightarrow> [] | Some hs \<Rightarrow> hs) \<inter> computed_fields = {}"
  shows "dom row \<inter> computed_fields = {}"
proof -
  from assms(1,2) obtain rs r where "parse_row response r = Inr row"
    using map_rows_result[of "parse_row response" _ out row]
    by (auto simp: parseGA4Response_def split: option.splits if_splits)
  from parse_row_dom[OF this] assms(3,4) show ?thesis by blast
qed

text \<open>
  Claim C9.  \<open>enrichMetrics\<close> returns one row for each metric row.  It leaves every field
  of a row unchanged and adds exactly two fields, \<open>returningUsers\<close> and
  \<open>avgEngagementPerSession\<close> (a metric row, as \<open>parseGA4Response\<close> builds it, has neither).
  With \<open>totalUsers\<close>, \<open>newUsers\<close> and \<open>userEngagementDuration\<close> missing or numbers,
  \<open>returningUsers\<close> is \<open>totalUsers - newUsers\<close> and \<open>avgEngagementPerSession\<close> is
  \<open>userEngagementDuration / sessions\<close> when \<open>sessions > 0\<close> and 0 otherwise, where a missing
  value of a field guarded by \<open>|| 0\<close> counts as 0; the division is guarded: its divisor
  is greater than 0, hence not zero.
\<close>

theorem enrichMetrics_frame:
  assumes "i < length data"
  shows "length (enrichMetrics data) = length data \<and>
         (\<forall>k. k \<notin> computed_fields \<longrightarrow> (enrichMetrics data ! i) k = (data ! i) k) \<and>
         dom (enrichMetrics data ! i) = dom (data ! i) \<union> computed_fields \<and>
         (dom (data ! i) \<inter> computed_fields = {} \<longrightarrow>
            (\<forall>k \<in> dom (data ! i). (enrichMetrics data ! i) k = (data ! i) k) \<and>
            dom (enrichMetrics data ! i) - dom (data ! i) = computed_fields) \<and>
         (number_or_missing ((data ! i) ''totalUsers'') \<and>
          number_or_missing ((data ! i) ''newUsers'') \<longrightarrow>
            (enrichMetrics data ! i) ''returningUsers'' =
              Some (JNum (js_sub (or_zero (to_number ((data ! i) ''totalUsers'')))
                                 (or_zero (to_number ((data ! i) ''newUsers'')))))) \<and>
         (number_or_missing ((data ! i) ''userEngagementDuration'') \<longrightarrow>
            (enrichMetrics data ! i) ''avgEngagementPerSession'' =
              Some (JNum (if js_gt (to_number ((data ! i) ''sessions'')) (Num 0)
                          then js_div (or_zero (to_number ((data ! i) ''userEngagementDuration'')))
                                      (to_number ((data ! i) ''sessions''))
                          else Num 0))) \<and>
         (js_gt (to_number ((data ! i) ''sessions'')) (Num 0) \<longrightarrow>
            \<not> is_zero (to_number ((data ! i) ''sessions'')))"
proof -
  have row: "enrichMetrics data ! i = enrich_row (data ! i)"
    using assms by (simp add: enrichMetrics_def)
  have 1: "length (enrichMetrics data) = length data"
    by (simp add: enrichMetrics_def)
  have 2: "\<forall>k. k \<notin> computed_fields \<longrightarrow> enrich_row (data ! i) k = (data ! i) k"
    by (simp add: enrich_row_frame)
  have 3: "dom (enrich_row (data ! i)) = dom (data ! i) \<union> computed_fields"
    by (rule enrich_row_dom)
  have 4: "dom (data ! i) \<inter> computed_fields = {} \<longrightarrow>
            (\<forall>k \<in> dom (data ! i). enrich_row (data ! i) k = (data ! i) k) \<and>
            dom (enrich_row (data ! i)) - dom (data ! i) = computed_fields"
    using 2 3 by blast
  have 5: "number_or_missing ((data ! i) ''totalUsers'') \<and>
          number_or_missing ((data ! i) ''newUsers'') \<longrightarrow>
            enrich_row (data ! i) ''returningUsers'' =
              Some (JNum (js_sub (or_zero (to_number ((data ! i) ''totalUsers'')))
                                 (or_zero (to_number ((data ! i) ''newUsers'')))))"
    by (simp add: enrich_row_returningUsers)
  have 6: "number_or_missing ((data ! i) ''userEngagementDuration'') \<longrightarrow>
            enrich_row (data ! i) ''avgEngagementPerSession'' =
              Some (JNum (if js_gt (to_number ((data ! i) ''sessions'')) (Num 0)
                          then js_div (or_zero (to_number ((data ! i) ''userEngagementDuration'')))
                                      (to_number ((data ! i) ''sessions''))
                          else Num 0))"
    using enrich_row_avgEngagementPerSession by blast
  have 7: "js_gt (to_number ((data ! i) ''sessions'')) (Num 0) \<longrightarrow>
            \<not> is_zero (to_number ((data ! i) ''sessions''))"
    by (simp add: js_gt_zero_not_zero)
  from 1 2 3 4 5 6 7 show ?thesis
    unfolding row by blast
qed

lemma sample_enrichment:
  "js_sub (Num 10) (Num 4) = Num 6" "js_div (Num 60) (Num 5) = Num 12"
  by (simp_all add: js_sub_def js_add_def js_div_def is_zero_def sample_doubles)

theorem enrichMetrics_frame_witness:
  "enrichMetrics [[''channel'' \<mapsto> JStr ''Direct'', ''totalUsers'' \<mapsto> JNum (Num 10),
                   ''newUsers'' \<mapsto> JNum (Num 4), ''sessions'' \<mapsto> JNum (Num 5),
                   ''userEngagementDuration'' \<mapsto> JNum (Num 60)]] ! 0
   = [''channel'' \<mapsto> JStr ''Direct'', ''totalUsers'' \<mapsto> JNum (Num 10),
      ''newUsers'' \<mapsto> JNum (Num 4), ''sessions'' \<mapsto> JNum (Num 5),
      ''userEngagementDuration'' \<mapsto> JNum (Num 60),
      ''returningUsers'' \<mapsto> JNum (Num 6), ''avgEngagementPerSession'' \<mapsto> JNum (Num 12)]"
proof -
  let ?row = "[''channel'' \<mapsto> JStr ''Direct'', ''totalUsers'' \<mapsto> JNum (Num 10),
                   ''newUsers'' \<mapsto> JNum (Num 4), ''sessions'' \<mapsto> JNum (Num 5),
                   ''userEngagementDuration'' \<mapsto> JNum (Num 60)]"
  have "(enrichMetrics [?row] ! 0) k =
        (?row(''returningUsers'' \<mapsto> JNum (Num 6), ''avgEngagementPerSession'' \<mapsto> JNum (Num 12))) k" for k
    using enrichMetrics_frame[of 0 "[?row]"]
    by (cases "k \<in> computed_fields")
       (auto simp: computed_fields_def or_zero_def js_gt_def sample_enrichment)
  then show ?thesis by blast
qed

section \<open>Chunked analysis\<close>

lemma substring_window:
  "i \<le> length str \<Longrightarrow>
   substring str i (min (i + chunkSize) (length str)) = take (min chunkSize (length str - i)) (drop i str)"
  by (auto simp: substring_def Let_def min_def max_def)

declare split_chunks.simps [simp del]

lemma ceil_step:
  assumes "i < (n::nat)"
  shows "Suc ((n - (i + 9500) + 9499) div 9500) = (n - i + 9499) div 9500"
proof (cases "i + 9500 \<le> n")
  case True
  then have "n - i + 9499 = (n - (i + 9500) + 9499) + 9500" by simp
  then show ?thesis by (simp only: div_add_self2)
next
  case False
  then have l: "(n - (i + 9500) + 9499) div 9500 = 0" by simp
  have "(n - i + 9499) div 9500 = 1"
    by (rule div_nat_eqI) (use assms False in simp_all)
  with l show ?thesis by simp
qed

lemma split_chunks_length:
  "length (split_chunks str i) = (length str - i + 9499) div 9500"
proof (induction str i rule: split_chunks.induct)
  case (1 str i)
  show ?case
  proof (cases "i < length str")
    case True
    then have "length (split_chunks str i) = Suc ((length str - (i + 9500) + 9499) div 9500)"
      using 1 by (subst split_chunks.simps) (simp add: chunkSize_def)
    also have "\<dots> = (length str - i + 9499) div 9500"
      using True by (rule ceil_step)
    finally show ?thesis .
  next
    case False
    then show ?thesis by (subst split_chunks.simps) simp
  qed
qed

lemma split_chunks_nth:
  "k < length (split_chunks str i) \<Longrightarrow>
   split_chunks str i ! k =
     take (min chunkSize (length str - (i + k * 9500))) (drop (i + k * 9500) str)"
proof (induction str i arbitrary: k rule: split_chunks.induct)
  case (1 str i)
  have lt: "i < length str"
    using 1(2) by (subst (asm) split_chunks.simps) (auto split: if_splits)
  have unfold: "split_chunks str i =
      take (min chunkSize (length str - i)) (drop i str) # split_chunks str (i + 9500)"
    using lt substring_window[of i str]
    by (subst split_chunks.simps) (simp add: chunkSize_def)
  show ?case
  proof (cases k)
    case 0
    then show ?thesis by (simp add: unfold)
  next
    case (Suc k')
    then have "k' < length (split_chunks str (i + (chunkSize - 500)))"
      using 1(2) unfold by (simp add: chunkSize_def)
    from 1(1)[OF lt this] show ?thesis
      using Suc unfold by (simp add: chunkSize_def add.assoc add.commute add.left_commute)
  qed
qed

lemma split_chunks_window:
  assumes "k < length (split_chunks str 0)"
  shows "split_chunks str 0 ! k = substring str (window_start k) (window_end str k)"
    and "length (split_chunks str 0 ! k) = min chunkSize (length str - window_start k)"
    and "window_start k < length str"
proof -
  have ws: "window_start k = k * 9500"
    by (simp add: window_start_def chunkSize_def)
  have "Suc k \<le> (length str + 9499) div 9500"
    using assms by (simp add: split_chunks_length)
  then have "Suc k * 9500 \<le> length str + 9499"
    by (simp only: less_eq_div_iff_mult_less_eq)
  then show lt: "window_start k < length str"
    using ws by simp
  have nth: "split_chunks str 0 ! k = take (min chunkSize (length str - k * 9500)) (drop (k * 9500) str)"
    using split_chunks_nth[OF assms] by simp
  have "substring str (window_start k) (window_end str k)
      = take (min chunkSize (length str - window_start k)) (drop (window_start k) str)"
    unfolding window_end_def using lt by (intro substring_window) simp
  with nth ws show "split_chunks str 0 ! k = substring str (window_start k) (window_end str k)"
    by simp
  from nth ws show "length (split_chunks str 0 ! k) = min chunkSize (length str - window_start k)"
    by simp
qed

lemma split_chunks_cover:
  assumes "p < length str"
  shows "\<exists>k < length (split_chunks str 0). window_start k \<le> p \<and> p < window_end str k"
proof -
  let ?k = "p div 9500"
  have lo: "?k * 9500 \<le> p" by simp
  have hi: "p < ?k * 9500 + 9500"
    using dividend_less_div_times[of 9500 p] by simp
  have "Suc ?k * 9500 \<le> length str + 9499"
    using lo assms by simp
  then have "Suc ?k \<le> (length str + 9499) div 9500"
    by (simp only: less_eq_div_iff_mult_less_eq)
  then have "?k < length (split_chunks str 0)"
    by (simp add: split_chunks_length)
  moreover have "window_start ?k \<le> p"
    using lo by (simp add: window_start_def chunkSize_def)
  moreover have "p < window_end str ?k"
    using hi assms by (simp add: window_end_def window_start_def chunkSize_def)
  ultimately show ?thesis by blast
qed

lemma split_chunks_overlap:
  assumes "Suc k < length (split_chunks str 0)"
    and "length (split_chunks str 0 ! k) = chunkSize"
    and "length (split_chunks str 0 ! Suc k) = chunkSize"
  shows "card ({window_start k ..< window_end str k} \<inter>
               {window_start (Suc k) ..< window_end str (Suc k)}) = 500"
    and "drop (chunkSize - 500) (split_chunks str 0 ! k) = take 500 (split_chunks str 0 ! Suc k)"
proof -
  have k: "k < length (split_chunks str 0)" using assms(1) by simp
  have ws: "window_start k = k * 9500" "window_start (Suc k) = k * 9500 + 9500"
    by (simp_all add: window_start_def chunkSize_def)
  have l0: "10000 \<le> length str - k * 9500"
    using split_chunks_window(2)[OF k] assms(2) ws by (simp add: chunkSize_def)
  have l1: "10000 \<le> length str - (k * 9500 + 9500)"
    using split_chunks_window(2)[OF assms(1)] assms(3) ws by (simp add: chunkSize_def)
  have e0: "window_end str k = k * 9500 + 10000"
    using l0 by (simp add: window_end_def ws chunkSize_def)
  have e1: "window_end str (Suc k) = k * 9500 + 19500"
    using l1 by (simp add: window_end_def ws chunkSize_def)
  have "{window_start k ..< window_end str k} \<inter> {window_start (Suc k) ..< window_end str (Suc k)}
        = {k * 9500 + 9500 ..< k * 9500 + 10000}"
    unfolding ws e0 e1 by auto
  then show "card ({window_start k ..< window_end str k} \<inter>
               {window_start (Suc k) ..< window_end str (Suc k)}) = 500"
    by simp
  have c0: "split_chunks str 0 ! k = take 10000 (drop (k * 9500) str)"
    using split_chunks_nth[OF k] l0 by (simp add: chunkSize_def)
  have c1: "split_chunks str 0 ! Suc k = take 10000 (drop (k * 9500 + 9500) str)"
    using split_chunks_nth[OF assms(1)] l1 by (simp add: chunkSize_def add.commute)
  show "drop (chunkSize - 500) (split_chunks str 0 ! k) = take 500 (split_chunks str 0 ! Suc k)"
    unfolding c0 c1 by (simp add: chunkSize_def drop_take add.commute)
qed

text \<open>
  Claim C4.  The chunking loop of \<open>analyzeInChunks\<close> produces the windows that start at
  positions 0, 9500, 19000, ..., each of length \<open>min(10000, characters remaining)\<close>; every
  position of the text lies in a window, and two consecutive full-size windows share
  exactly 500 positions (the last 500 characters of the first are the first 500 of the
  second).  This holds for every text, so for every text longer than 15000 characters.
\<close>

theorem analyzeInChunks_windows:
  "length (split_chunks str 0) = (length str + 9499) div 9500 \<and>
   (\<forall>k < length (split_chunks str 0).
       window_start k = 9500 * k \<and>
       split_chunks str 0 ! k = substring str (window_start k) (window_end str k) \<and>
       length (split_chunks str 0 ! k) = min 10000 (length str - window_start k)) \<and>
   (\<forall>p < length str. \<exists>k < length (split_chunks str 0). window_start k \<le> p \<and> p < window_end str k) \<and>
   (\<forall>k. Suc k < length (split_chunks str 0) \<and>
        length (split_chunks str 0 ! k) = 10000 \<and> length (split_chunks str 0 ! Suc k) = 10000 \<longrightarrow>
        card ({window_start k ..< window_end str k} \<inter>
              {window_start (Suc k) ..< window_end str (Suc k)}) = 500 \<and>
        drop 9500 (split_chunks str 0 ! k) = take 500 (split_chunks str 0 ! Suc k))"
proof (intro conjI allI impI)
  show "length (split_chunks str 0) = (length str + 9499) div 9500"
    by (simp add: split_chunks_length)
next
  fix k assume "k < length (split_chunks str 0)"
  from split_chunks_window[OF this]
  show "split_chunks str 0 ! k = substring str (window_start k) (window_end str k)"
    and "length (split_chunks str 0 ! k) = min 10000 (length str - window_start k)"
    by (simp_all add: chunkSize_def)
next
  fix k show "window_start k = 9500 * k"
    by (simp add: window_start_def chunkSize_def)
next
  fix p assume "p < length str"
  then show "\<exists>k < length (split_chunks str 0). window_start k \<le> p \<and> p < window_end str k"
    by (rule split_chunks_cover)
next
  fix k
  assume a: "Suc k < length (split_chunks str 0) \<and>
        length (split_chunks str 0 ! k) = 10000 \<and> length (split_chunks str 0 ! Suc k) = 10000"
  then have h: "Suc k < length (split_chunks str 0)"
    "length (split_chunks str 0 ! k) = chunkSize" "length (split_chunks str 0 ! Suc k) = chunkSize"
    by (simp_all add: chunkSize_def)
  from split_chunks_overlap[OF h]
  show "card ({window_start k ..< window_end str k} \<inter>
              {window_start (Suc k) ..< window_end str (Suc k)}) = 500"
    and "drop 9500 (split_chunks str 0 ! k) = take 500 (split_chunks str 0 ! Suc k)"
    by (simp_all add: chunkSize_def)
qed

theorem analyzeInChunks_windows_witness:
  "length (split_chunks (replicate 20000 (CHR ''a'')) 0) = 3 \<and>
   length (split_chunks (replicate 20000 (CHR ''a'')) 0 ! 0) = 10000 \<and>
   length (split_chunks (replicate 20000 (CHR ''a'')) 0 ! 1) = 10000 \<and>
   length (split_chunks (replicate 20000 (CHR ''a'')) 0 ! 2) = 1000 \<and>
   (\<exists>k < 3. window_start k \<le> 9700 \<and> 9700 < window_end (replicate 20000 (CHR ''a'')) k) \<and>
   card ({window_start 0 ..< window_end (replicate 20000 (CHR ''a'')) 0} \<inter>
         {window_start 1 ..< window_end (replicate 20000 (CHR ''a'')) 1}) = 500"
proof -
  let ?R = "replicate 20000 (CHR ''a'')"
  note t = analyzeInChunks_windows[of ?R]
  have len: "length (split_chunks ?R 0) = 3"
    using t[THEN conjunct1] by simp
  have w: "length (split_chunks ?R 0 ! k) = min 10000 (20000 - 9500 * k)" if "k < 3" for k
  proof -
    have "k < length (split_chunks ?R 0)" using that len by simp
    from t[THEN conjunct2, THEN conjunct1, rule_format, OF this]
    have "window_start k = 9500 * k"
      and "length (split_chunks ?R 0 ! k) = min 10000 (length ?R - window_start k)"
      by blast+
    then show ?thesis by simp
  qed
  have l0: "length (split_chunks ?R 0 ! 0) = 10000" using w[of 0] by simp
  have l1: "length (split_chunks ?R 0 ! 1) = 10000" using w[of 1] by simp
  have l2: "length (split_chunks ?R 0 ! 2) = 1000" using w[of 2] by simp
  have cov: "\<exists>k < 3. window_start k \<le> 9700 \<and> 9700 < window_end ?R k"
  proof -
    have "\<forall>p < length ?R. \<exists>k < length (split_chunks ?R 0). window_start k \<le> p \<and> p < window_end ?R k"
      using t[THEN conjunct2, THEN conjunct2, THEN conjunct1] .
    then have "\<exists>k < length (split_chunks ?R 0). window_start k \<le> 9700 \<and> 9700 < window_end ?R k"
      by simp
    then show ?thesis by (simp only: len)
  qed
  have ov: "card ({window_start 0 ..< window_end ?R 0} \<inter> {window_start 1 ..< window_end ?R 1}) = 500"
  proof -
    have "\<forall>k. Suc k < length (split_chunks ?R 0) \<and>
        length (split_chunks ?R 0 ! k) = 10000 \<and> length (split_chunks ?R 0 ! Suc k) = 10000 \<longrightarrow>
        card ({window_start k ..< window_end ?R k} \<inter>
              {window_start (Suc k) ..< window_end ?R (Suc k)}) = 500 \<and>
        drop 9500 (split_chunks ?R 0 ! k) = take 500 (split_chunks ?R 0 ! Suc k)"
      using t[THEN conjunct2, THEN conjunct2, THEN conjunct2] .
    from this[rule_format, of 0] show ?thesis
      using len l0 l1 by simp
  qed
  show ?thesis using len l0 l1 l2 cov ov by blast
qed

subsection \<open>Deduplication across chunks\<close>

lemma set_keep_first: "key ` set (keep_first key xs) = key ` set xs"
proof (induction key xs rule: keep_first.induct)
  case (2 key x xs)
  then show ?case by auto
qed simp

lemma keep_first_subset: "set (keep_first key xs) \<subseteq> set xs"
proof (induction key xs rule: keep_first.induct)
  case (2 key x xs)
  then show ?case by auto
qed simp

lemma distinct_keep_first: "distinct (map key (keep_first key xs))"
proof (induction key xs rule: keep_first.induct)
  case (2 key x xs)
  have "key x \<notin> key ` set (keep_first key (filter (\<lambda>y. key y \<noteq> key x) xs))"
    unfolding set_keep_first by auto
  with 2 show ?case by simp
qed simp

lemma keep_first_append:
  "keep_first key (xs @ ys) =
     keep_first key xs @ keep_first key (filter (\<lambda>y. key y \<notin> key ` set xs) ys)"
proof (induction key xs arbitrary: ys rule: keep_first.induct)
  case (1 key)
  show ?case by simp
next
  case (2 key x xs)
  let ?f = "filter (\<lambda>y. key y \<noteq> key x)"
  have "filter (\<lambda>y. key y \<notin> key ` set (?f xs)) (?f ys)
      = filter (\<lambda>y. key y \<notin> key ` set (x # xs)) ys"
    unfolding filter_filter by (rule filter_cong) auto
  with 2[of "?f ys"] show ?case by simp
qed

lemma add_issues_reached:
  "add_issues issues st = add_issues (takeWhile (\<lambda>i. issue_text i \<noteq> None) issues) st"
  by (induction issues st rule: add_issues.induct) (auto simp: Let_def split: option.splits)

lemma add_issues_keep_first:
  assumes "\<forall>i \<in> set issues. issue_text i \<noteq> None"
  shows "allIssues (add_issues issues st) =
           allIssues st @ keep_first text_key (filter (\<lambda>i. text_key i \<notin> seenTexts st) issues)
         \<and> seenTexts (add_issues issues st) = seenTexts st \<union> text_key ` set issues"
  using assms
proof (induction issues st rule: add_issues.induct)
  case (1 st)
  show ?case by simp
next
  case (2 i rest st)
  from 2(3) obtain t where t: "issue_text i = Some t" by auto
  then have key: "text_key i = trim t" by (simp add: text_key_def)
  show ?case
  proof (cases "trim t \<in> seenTexts st")
    case True
    with 2(2)[OF t refl] 2(3) t key show ?thesis by auto
  next
    case False
    let ?st = "st\<lparr>seenTexts := insert (trim t) (seenTexts st), allIssues := allIssues st @ [i]\<rparr>"
    have "filter (\<lambda>y. text_key y \<noteq> text_key i) (filter (\<lambda>y. text_key y \<notin> seenTexts st) rest)
        = filter (\<lambda>y. text_key y \<notin> seenTexts ?st) rest"
      unfolding filter_filter by (rule filter_cong) (auto simp: key)
    with 2(1)[OF t refl False] 2(3) t key False show ?thesis by auto
  qed
qed

lemma process_chunk_keep_first:
  "allIssues (process_chunk r st) =
     allIssues st @ keep_first text_key (filter (\<lambda>i. text_key i \<notin> seenTexts st) (reached_issues r))
   \<and> seenTexts (process_chunk r st) = seenTexts st \<union> text_key ` set (reached_issues r)"
proof (cases r)
  case (Parsed issues)
  have "\<forall>i \<in> set (takeWhile (\<lambda>i. issue_text i \<noteq> None) issues). issue_text i \<noteq> None"
    by (auto dest: set_takeWhileD)
  from add_issues_keep_first[OF this, of st] show ?thesis
    using Parsed add_issues_reached[of issues st] by simp
qed simp_all

lemma process_chunks_keep_first:
  "allIssues (process_chunks replies st) =
     allIssues st @ keep_first text_key
       (filter (\<lambda>i. text_key i \<notin> seenTexts st) (concat (map reached_issues replies)))"
proof (induction replies arbitrary: st)
  case Nil
  show ?case by simp
next
  case (Cons r rs)
  let ?xs = "reached_issues r" and ?ys = "concat (map reached_issues rs)"
  let ?S = "seenTexts st"
  let ?fx = "filter (\<lambda>i. text_key i \<notin> ?S) ?xs"
  have "filter (\<lambda>y. text_key y \<notin> text_key ` set ?fx) (filter (\<lambda>i. text_key i \<notin> ?S) ?ys)
      = filter (\<lambda>i. text_key i \<notin> ?S \<union> text_key ` set ?xs) ?ys"
    unfolding filter_filter by (rule filter_cong) auto
  then have "keep_first text_key (filter (\<lambda>i. text_key i \<notin> ?S) (?xs @ ?ys))
      = keep_first text_key ?fx
        @ keep_first text_key (filter (\<lambda>i. text_key i \<notin> ?S \<union> text_key ` set ?xs) ?ys)"
    by (simp add: keep_first_append)
  then show ?case
    using Cons[of "process_chunk r st"] process_chunk_keep_first[of r st] by simp
qed

text \<open>
  Claim C5.  The combined issue list of \<open>analyzeInChunks\<close> has no two entries with the same
  trimmed text: it is the list of the issues reached in the replies, in order, with the
  first occurrence of every trimmed text kept and the later ones dropped.  The list for
  any number of chunks processed so far is of this kind, as the statement holds for every
  list of replies.
\<close>

theorem combine_issues_dedup:
  "distinct (map text_key (combine_issues replies)) \<and>
   combine_issues replies = keep_first text_key (concat (map reached_issues replies)) \<and>
   (\<forall>i \<in> set (combine_issues replies). \<exists>t. issue_text i = Some t \<and> text_key i = trim t) \<and>
   (\<forall>n. distinct (map text_key (combine_issues (take n replies))))"
proof -
  have eq: "combine_issues rs = keep_first text_key (concat (map reached_issues rs))" for rs
    by (simp add: combine_issues_def process_chunks_keep_first)
  have "\<exists>t. issue_text i = Some t \<and> text_key i = trim t" if "i \<in> set (combine_issues replies)" for i
  proof -
    from that have "i \<in> set (concat (map reached_issues replies))"
      using keep_first_subset[of text_key] unfolding eq by blast
    then obtain r where "i \<in> set (reached_issues r)" by auto
    then have "issue_text i \<noteq> None"
      by (cases r) (auto dest: set_takeWhileD)
    then show ?thesis by (auto simp: text_key_def)
  qed
  then show ?thesis
    by (simp add: eq distinct_keep_first)
qed

theorem combine_issues_dedup_witness:
  "combine_issues
     [Parsed [\<lparr>issue_text = Some '' passive voice '', issue_problem = ''a'', issue_suggestion = [], issue_rule = []\<rparr>,
        \<lparr>issue_text = Some ''very unique'', issue_problem = ''b'', issue_suggestion = [], issue_rule = []\<rparr>],
      Threw,
      Parsed [\<lparr>issue_text = Some ''passive voice'', issue_problem = ''c'', issue_suggestion = [], issue_rule = []\<rparr>,
        \<lparr>issue_text = None, issue_problem = ''d'', issue_suggestion = [], issue_rule = []\<rparr>,
        \<lparr>issue_text = Some ''in order to'', issue_problem = ''e'', issue_suggestion = [], issue_rule = []\<rparr>]]
   = [\<lparr>issue_text = Some '' passive voice '', issue_problem = ''a'', issue_suggestion = [], issue_rule = []\<rparr>,
      \<lparr>issue_text = Some ''very unique'', issue_problem = ''b'', issue_suggestion = [], issue_rule = []\<rparr>]"
proof -
  let ?R = "[Parsed [\<lparr>issue_text = Some '' passive voice '', issue_problem = ''a'', issue_suggestion = [], issue_rule = []\<rparr>,
        \<lparr>issue_text = Some ''very unique'', issue_problem = ''b'', issue_suggestion = [], issue_rule = []\<rparr>],
      Threw,
      Parsed [\<lparr>issue_text = Some ''passive voice'', issue_problem = ''c'', issue_suggestion = [], issue_rule = []\<rparr>,
        \<lparr>issue_text = None, issue_problem = ''d'', issue_suggestion = [], issue_rule = []\<rparr>,
        \<lparr>issue_text = Some ''in order to'', issue_problem = ''e'', issue_suggestion = [], issue_rule = []\<rparr>]]"
  have "keep_first text_key (concat (map reached_issues ?R))
        = [\<lparr>issue_text = Some '' passive voice '', issue_problem = ''a'', issue_suggestion = [], issue_rule = []\<rparr>,
           \<lparr>issue_text = Some ''very unique'', issue_problem = ''b'', issue_suggestion = [], issue_rule = []\<rparr>]"
    by (simp add: text_key_def trim_def is_space_def)
  then show ?thesis
    using combine_issues_dedup[of ?R] by simp
qed

section \<open>Chunking a rule document\<close>

lemma split_paragraphs_nonempty: "split_paragraphs s \<noteq> []"
  by (induction s rule: split_paragraphs.induct) (auto elim: cons_first.elims)

lemma join_cons_first: "ps \<noteq> [] \<Longrightarrow> join_paragraphs (cons_first c ps) = c # join_paragraphs ps"
  by (cases ps rule: join_paragraphs.cases) simp_all

lemma join_Cons: "ps \<noteq> [] \<Longrightarrow> join_paragraphs (p # ps) = p @ para_sep @ join_paragraphs ps"
  by (cases ps) simp_all

lemma join_split: "join_paragraphs (split_paragraphs s) = s"
proof (induction s rule: split_paragraphs.induct)
  case (3 c d cs)
  then show ?case
    by (auto simp: join_Cons join_cons_first split_paragraphs_nonempty para_sep_def)
qed simp_all

lemma join_snoc:
  "join_paragraphs (ps @ [p]) = (if ps = [] then p else join_paragraphs ps @ para_sep @ p)"
  by (induction ps rule: join_paragraphs.induct) simp_all

lemma length_join:
  "ps \<noteq> [] \<Longrightarrow> length (join_paragraphs ps) = sum_list (map length ps) + 2 * (length ps - 1)"
  by (induction ps rule: join_paragraphs.induct) (simp_all add: para_sep_def)

lemma non_space_Nil: "non_space [] = []"
  by (simp add: non_space_def)

lemma non_space_dropWhile: "non_space (dropWhile is_space s) = non_space s"
  by (induction s) (simp_all add: non_space_def)

lemma non_space_rev: "non_space (rev s) = rev (non_space s)"
  by (simp add: non_space_def rev_filter)

lemma non_space_trim: "non_space (trim s) = non_space s"
  by (simp add: trim_def non_space_rev non_space_dropWhile)

lemma non_space_append: "non_space (a @ b) = non_space a @ non_space b"
  by (simp add: non_space_def)

lemma non_space_sep: "non_space para_sep = []"
  by (simp add: non_space_def para_sep_def is_space_def)

lemma non_space_join: "non_space (join_paragraphs ps) = concat (map non_space ps)"
  by (induction ps rule: join_paragraphs.induct)
     (simp_all add: non_space_append non_space_sep non_space_Nil)

lemma trim_clean: "s \<noteq> [] \<Longrightarrow> \<not> is_space (hd s) \<Longrightarrow> \<not> is_space (last s) \<Longrightarrow> trim s = s"
proof -
  assume a: "s \<noteq> []" "\<not> is_space (hd s)" "\<not> is_space (last s)"
  then have 1: "dropWhile is_space s = s" by (cases s) simp_all
  have "rev s \<noteq> []" "\<not> is_space (hd (rev s))" using a by (simp_all add: hd_rev)
  then have 2: "dropWhile is_space (rev s) = rev s" by (cases "rev s") simp_all
  show ?thesis by (simp add: trim_def 1 2)
qed

subsection \<open>Content up to white space\<close>

lemma chunk_loop_non_space:
  "chunk_loop m ps (chunks, cur) = (chunks', cur') \<Longrightarrow>
   concat (map non_space chunks') @ non_space cur'
     = concat (map non_space chunks) @ non_space cur @ concat (map non_space ps)"
proof (induction m ps "(chunks, cur)" arbitrary: chunks cur rule: chunk_loop.induct)
  case (1 m)
  then show ?case by simp
next
  case (2 m para rest chunks cur)
  show ?case
  proof (cases "length (cur @ para) > m \<and> cur \<noteq> []")
    case True
    with 2(3) have "chunk_loop m rest (chunks @ [trim cur], para) = (chunks', cur')" by simp
    from 2(1)[OF True this] show ?thesis by (simp add: non_space_trim)
  next
    case False
    with 2(3) have "chunk_loop m rest (chunks, cur @ (if cur \<noteq> [] then para_sep else []) @ para)
        = (chunks', cur')" by (auto split: if_splits)
    from 2(2)[OF False this] show ?thesis
      by (simp add: non_space_append non_space_sep non_space_Nil)
  qed
qed

lemma chunkText_non_space:
  "non_space (join_paragraphs (chunkText str m)) = non_space str"
proof -
  obtain chunks cur where l: "chunk_loop m (split_paragraphs str) ([], []) = (chunks, cur)"
    by (cases "chunk_loop m (split_paragraphs str) ([], [])")
  from chunk_loop_non_space[OF l]
  have "concat (map non_space chunks) @ non_space cur = concat (map non_space (split_paragraphs str))"
    by (simp add: non_space_Nil)
  also have "\<dots> = non_space str"
    using non_space_join[of "split_paragraphs str"] by (simp add: join_split)
  finally have e: "concat (map non_space chunks) @ non_space cur = non_space str" .
  have "non_space (join_paragraphs (chunkText str m)) = concat (map non_space chunks) @ non_space cur"
    using l by (simp add: chunkText_def non_space_join non_space_trim non_space_Nil)
  with e show ?thesis by simp
qed

subsection \<open>Exact content for clean paragraphs\<close>

lemma clean_join:
  assumes "ps \<noteq> []" "\<forall>p \<in> set ps. clean_paragraph p"
  shows "clean_paragraph (join_paragraphs ps)"
  using assms
proof (induction ps rule: join_paragraphs.induct)
  case (3 p q ps)
  then have "clean_paragraph (join_paragraphs (q # ps))" "clean_paragraph p" by simp_all
  then show ?case by (auto simp: clean_paragraph_def para_sep_def)
qed simp_all

lemma trim_clean_paragraph: "clean_paragraph p \<Longrightarrow> trim p = p"
  by (simp add: clean_paragraph_def trim_clean)

lemma chunk_loop_exact:
  assumes "chunk_loop m ps (chunks, cur) = (chunks', cur')"
    and "\<forall>p \<in> set ps. clean_paragraph p"
    and "cur = [] \<longrightarrow> chunks = []"
    and "cur \<noteq> [] \<longrightarrow> clean_paragraph cur"
  shows "join_paragraphs (chunks' @ (if cur' = [] then [] else [trim cur']))
           = join_paragraphs (chunks @ (if cur = [] then [] else [cur]) @ ps)"
  using assms
proof (induction m ps "(chunks, cur)" arbitrary: chunks cur rule: chunk_loop.induct)
  case (1 m)
  then show ?case by (auto simp: trim_clean_paragraph)
next
  case (2 m para rest chunks cur)
  have para: "clean_paragraph para" and rest: "\<forall>p \<in> set rest. clean_paragraph p"
    using 2(4) by simp_all
  then have pne: "para \<noteq> []" by (simp add: clean_paragraph_def)
  show ?case
  proof (cases "length (cur @ para) > m \<and> cur \<noteq> []")
    case True
    with 2(3) have run: "chunk_loop m rest (chunks @ [trim cur], para) = (chunks', cur')" by simp
    have tc: "trim cur = cur" using True 2(6) by (simp add: trim_clean_paragraph)
    from 2(1)[OF True run rest] pne para
    have "join_paragraphs (chunks' @ (if cur' = [] then [] else [trim cur']))
        = join_paragraphs ((chunks @ [trim cur]) @ [para] @ rest)"
      by simp
    then show ?thesis using True tc by simp
  next
    case False
    let ?cur = "cur @ (if cur \<noteq> [] then para_sep else []) @ para"
    from False 2(3) have run: "chunk_loop m rest (chunks, ?cur) = (chunks', cur')"
      by (auto split: if_splits)
    have ne: "?cur \<noteq> []" using pne by simp
    have cl: "clean_paragraph ?cur"
      using para 2(6) by (auto simp: clean_paragraph_def para_sep_def)
    from 2(2)[OF False run rest] ne cl
    have e: "join_paragraphs (chunks' @ (if cur' = [] then [] else [trim cur']))
        = join_paragraphs (chunks @ [?cur] @ rest)"
      by simp
    show ?thesis
    proof (cases "cur = []")
      case True
      with e 2(5) show ?thesis by simp
    next
      case c: False
      have "join_paragraphs ((chunks @ [cur @ para_sep @ para]) @ rest)
          = join_paragraphs ((chunks @ [cur, para]) @ rest)"
      proof (induction chunks)
        case Nil
        show ?case by (cases rest) simp_all
      next
        case (Cons a chunks)
        then show ?case by (simp add: join_Cons)
      qed
      with e c show ?thesis by simp
    qed
  qed
qed

text \<open>
  Claim C3, as amended.  \<open>chunkText\<close> preserves the content of the text up to white space:
  the chunks joined by \<open>'\n\n'\<close> have the non-space characters of the text, in order.  The
  joined chunks are the text itself when the text is empty or every paragraph is
  non-empty and neither starts nor ends with white space.
\<close>

theorem chunkText_content:
  "non_space (join_paragraphs (chunkText str m)) = non_space str \<and>
   (str = [] \<or> (\<forall>p \<in> set (split_paragraphs str). clean_paragraph p) \<longrightarrow>
      join_paragraphs (chunkText str m) = str)"
proof (intro conjI impI)
  show "non_space (join_paragraphs (chunkText str m)) = non_space str"
    by (rule chunkText_non_space)
next
  assume a: "str = [] \<or> (\<forall>p \<in> set (split_paragraphs str). clean_paragraph p)"
  show "join_paragraphs (chunkText str m) = str"
  proof (cases "str = []")
    case True
    then show ?thesis by (simp add: chunkText_def)
  next
    case False
    with a have cl: "\<forall>p \<in> set (split_paragraphs str). clean_paragraph p" by simp
    obtain chunks cur where l: "chunk_loop m (split_paragraphs str) ([], []) = (chunks, cur)"
      by (cases "chunk_loop m (split_paragraphs str) ([], [])")
    from chunk_loop_exact[OF l cl]
    have "join_paragraphs (chunks @ (if cur = [] then [] else [trim cur])) = str"
      by (simp add: join_split)
    moreover have "chunkText str m = chunks @ (if cur = [] then [] else [trim cur])"
      using l by (simp add: chunkText_def)
    ultimately show ?thesis by simp
  qed
qed

theorem chunkText_content_witness:
  "join_paragraphs (chunkText (''ab'' @ para_sep @ ''cd ef'' @ para_sep @ ''gh'') 6)
     = ''ab'' @ para_sep @ ''cd ef'' @ para_sep @ ''gh'' \<and>
   chunkText (''ab'' @ para_sep @ ''cd ef'' @ para_sep @ ''gh'') 6 = [''ab'', ''cd ef'', ''gh'']"
proof -
  let ?t = "''ab'' @ para_sep @ ''cd ef'' @ para_sep @ ''gh''"
  have sp: "split_paragraphs ?t = [''ab'', ''cd ef'', ''gh'']"
    by (simp add: para_sep_def)
  have cl: "\<forall>p \<in> set (split_paragraphs ?t). clean_paragraph p"
    unfolding sp by (simp add: clean_paragraph_def is_space_def)
  have ev: "chunkText ?t 6 = [''ab'', ''cd ef'', ''gh'']"
    unfolding chunkText_def sp by (simp add: trim_def is_space_def)
  from chunkText_content[of ?t 6] cl
  have "join_paragraphs (chunkText ?t 6) = ?t" by blast
  with ev show ?thesis by blast
qed

text \<open>The chunks are trimmed: a leading space of the text is lost.\<close>

theorem chunkText_content_counterexample:
  "join_paragraphs (chunkText '' a'' 10) \<noteq> '' a''"
  by (simp add: chunkText_def trim_def is_space_def)

subsection \<open>The length of a chunk\<close>

lemma open_run_start: "open_run m (D @ [para]) para"
proof (cases "para = []")
  case False
  have "[para] \<noteq> [] \<and> suffix [para] (D @ [para]) \<and> para = join_paragraphs [para] \<and>
        (length [para] = 1 \<or> sum_list (map length [para]) + 2 * (length [para] - 2) \<le> m)"
    by (simp add: suffix_def)
  then show ?thesis unfolding open_run_def by blast
qed (simp add: open_run_def)

lemma open_run_closed:
  assumes "open_run m D cur" "cur \<noteq> []"
  shows "\<exists>ps. paragraph_run m (D @ rest) ps \<and> trim cur = trim (join_paragraphs ps)"
proof -
  from assms obtain ps where ps: "ps \<noteq> []" "suffix ps D" "cur = join_paragraphs ps"
    "length ps = 1 \<or> sum_list (map length ps) + 2 * (length ps - 2) \<le> m"
    unfolding open_run_def by blast
  from ps(2) obtain xs where "D = xs @ ps" by (auto simp: suffix_def)
  then have "D @ rest = xs @ ps @ rest" by simp
  then have "sublist ps (D @ rest)" unfolding sublist_def by blast
  moreover have "length ps = 1 \<or> sum_list (map length ps) \<le> m" using ps(4) by auto
  ultimately have "paragraph_run m (D @ rest) ps" using ps(1) by (simp add: paragraph_run_def)
  with ps(3) show ?thesis by blast
qed

lemma open_run_extend:
  assumes "open_run m D cur" "cur \<noteq> []" "length cur + length para \<le> m"
  shows "open_run m (D @ [para]) (cur @ para_sep @ para)"
proof -
  from assms obtain ps where ps: "ps \<noteq> []" "suffix ps D" "cur = join_paragraphs ps"
    unfolding open_run_def by blast
  have "suffix (ps @ [para]) (D @ [para])" using ps(2) by (auto simp: suffix_def)
  moreover have "cur @ para_sep @ para = join_paragraphs (ps @ [para])"
    using ps(1,3) by (simp add: join_snoc)
  moreover have "sum_list (map length (ps @ [para])) + 2 * (length (ps @ [para]) - 2) \<le> m"
  proof -
    have "length ps \<ge> 1" using ps(1) by (cases ps) simp_all
    then have "sum_list (map length (ps @ [para])) + 2 * (length (ps @ [para]) - 2)
        = length (join_paragraphs ps) + length para"
      using length_join[OF ps(1)] by simp
    then show ?thesis using assms(3) ps(3) by simp
  qed
  ultimately have "ps @ [para] \<noteq> [] \<and> suffix (ps @ [para]) (D @ [para]) \<and>
      cur @ para_sep @ para = join_paragraphs (ps @ [para]) \<and>
      (length (ps @ [para]) = 1 \<or>
       sum_list (map length (ps @ [para])) + 2 * (length (ps @ [para]) - 2) \<le> m)"
    by simp
  then show ?thesis unfolding open_run_def by blast
qed

lemma chunk_loop_runs:
  assumes "chunk_loop m rest (chunks, cur) = (chunks', cur')"
    and "\<forall>c \<in> set chunks. \<exists>ps. paragraph_run m (D @ rest) ps \<and> c = trim (join_paragraphs ps)"
    and "open_run m D cur"
  shows "(\<forall>c \<in> set chunks'. \<exists>ps. paragraph_run m (D @ rest) ps \<and> c = trim (join_paragraphs ps))
         \<and> open_run m (D @ rest) cur'"
  using assms
proof (induction m rest "(chunks, cur)" arbitrary: chunks cur D rule: chunk_loop.induct)
  case (1 m)
  then show ?case by simp
next
  case (2 m para rest chunks cur)
  have app: "D @ para # rest = (D @ [para]) @ rest" by simp
  show ?case
  proof (cases "length (cur @ para) > m \<and> cur \<noteq> []")
    case True
    with 2(3) have run: "chunk_loop m rest (chunks @ [trim cur], para) = (chunks', cur')" by simp
    from open_run_closed[OF 2(5), of "para # rest"] True
    have "\<exists>ps. paragraph_run m (D @ para # rest) ps \<and> trim cur = trim (join_paragraphs ps)"
      by simp
    with 2(4) have ch: "\<forall>c \<in> set (chunks @ [trim cur]).
        \<exists>ps. paragraph_run m ((D @ [para]) @ rest) ps \<and> c = trim (join_paragraphs ps)"
      by (simp del: append_assoc add: app)
    from 2(1)[OF True run ch open_run_start] show ?thesis
      unfolding app .
  next
    case False
    let ?cur = "cur @ (if cur \<noteq> [] then para_sep else []) @ para"
    from False 2(3) have run: "chunk_loop m rest (chunks, ?cur) = (chunks', cur')"
      by (auto split: if_splits)
    have ch: "\<forall>c \<in> set chunks.
        \<exists>ps. paragraph_run m ((D @ [para]) @ rest) ps \<and> c = trim (join_paragraphs ps)"
      using 2(4) by (simp only: app)
    have op: "open_run m (D @ [para]) ?cur"
    proof (cases "cur = []")
      case True
      then show ?thesis using open_run_start[of m D para] by simp
    next
      case c: False
      with False have "length cur + length para \<le> m" by simp
      from open_run_extend[OF 2(5) c this] c show ?thesis by simp
    qed
    from 2(2)[OF False run ch op] show ?thesis
      unfolding app .
  qed
qed

text \<open>
  Claim C2, as amended.  Every chunk returned by \<open>chunkText\<close> is the trimmed join of whole
  consecutive paragraphs of the text.  A chunk of two or more paragraphs holds at most
  \<open>maxLength\<close> paragraph characters, the separators between them not counted; a chunk of
  one paragraph is that paragraph, whatever its length.
\<close>

theorem chunkText_chunks:
  assumes "c \<in> set (chunkText str m)"
  shows "\<exists>ps. ps \<noteq> [] \<and> sublist ps (split_paragraphs str) \<and> c = trim (join_paragraphs ps) \<and>
              (length ps = 1 \<or> sum_list (map length ps) \<le> m)"
proof -
  obtain chunks cur where l: "chunk_loop m (split_paragraphs str) ([], []) = (chunks, cur)"
    by (cases "chunk_loop m (split_paragraphs str) ([], [])")
  have o: "open_run m [] []" by (simp add: open_run_def)
  from chunk_loop_runs[OF l _ o]
  have ch: "\<forall>c \<in> set chunks. \<exists>ps. paragraph_run m (split_paragraphs str) ps \<and> c = trim (join_paragraphs ps)"
    and op: "open_run m (split_paragraphs str) cur"
    by simp_all
  have "\<exists>ps. paragraph_run m (split_paragraphs str) ps \<and> c = trim (join_paragraphs ps)"
  proof (cases "c \<in> set chunks")
    case True
    with ch show ?thesis by blast
  next
    case False
    with assms l have "cur \<noteq> []" "c = trim cur"
      by (auto simp: chunkText_def split: if_splits)
    with open_run_closed[OF op, of "[]"] show ?thesis by simp
  qed
  then show ?thesis unfolding paragraph_run_def by blast
qed

theorem chunkText_chunks_witness:
  "''ab'' \<in> set (chunkText (''ab'' @ para_sep @ ''cd ef'' @ para_sep @ ''gh'') 6) \<and>
   (\<exists>ps. ps \<noteq> [] \<and> sublist ps (split_paragraphs (''ab'' @ para_sep @ ''cd ef'' @ para_sep @ ''gh'')) \<and>
         ''ab'' = trim (join_paragraphs ps) \<and> (length ps = 1 \<or> sum_list (map length ps) \<le> 6))"
proof -
  let ?t = "''ab'' @ para_sep @ ''cd ef'' @ para_sep @ ''gh''"
  have sp: "split_paragraphs ?t = [''ab'', ''cd ef'', ''gh'']"
    by (simp add: para_sep_def)
  have ev: "chunkText ?t 6 = [''ab'', ''cd ef'', ''gh'']"
    unfolding chunkText_def sp by (simp add: trim_def is_space_def)
  then have h: "''ab'' \<in> set (chunkText ?t 6)" by simp
  from chunkText_chunks[OF h] h show ?thesis by blast
qed

text \<open>A paragraph longer than \<open>maxLength\<close> is a chunk longer than \<open>maxLength\<close>.\<close>

theorem chunkText_bound_counterexample:
  "chunkText ''abcdef'' 3 = [''abcdef''] \<and> length ''abcdef'' > 3"
  by (simp add: chunkText_def trim_def is_space_def)

text \<open>The length check does not count the separator that joining inserts.\<close>

lemma chunkText_separator_not_counted:
  "chunkText (''ab'' @ para_sep @ ''cd'') 4 = [''ab'' @ para_sep @ ''cd'']"
  by (simp add: chunkText_def trim_def is_space_def para_sep_def)

section \<open>Matching\<close>

lemma runs_append: "(a, r) \<in> set (runs P s) \<Longrightarrow> a @ r = s"
  by (induction P s arbitrary: a r rule: runs.induct) (auto split: if_splits)

lemma runs_hd: "\<exists>rest. runs P s = (takeWhile P s, dropWhile P s) # rest"
proof (induction P s rule: runs.induct)
  case (2 P c cs)
  show ?case
  proof (cases "P c")
    case True
    with 2 obtain rest where "runs P cs = (takeWhile P cs, dropWhile P cs) # rest" by blast
    with True show ?thesis by simp
  qed simp
qed simp

lemma runs_nonempty_Nil:
  "s = [] \<or> \<not> P (hd s) \<Longrightarrow> filter (\<lambda>ar. fst ar \<noteq> []) (runs P s) = []"
  by (cases s) auto

lemma runs_nonempty_Cons:
  assumes "P c"
  shows "\<exists>rest. filter (\<lambda>ar. fst ar \<noteq> []) (runs P (c # cs))
           = (takeWhile P (c # cs), dropWhile P (c # cs)) # rest"
proof -
  obtain rest where r: "runs P cs = (takeWhile P cs, dropWhile P cs) # rest"
    using runs_hd by blast
  have "filter (\<lambda>ar. fst ar \<noteq> []) (map (\<lambda>(a, r). (c # a, r)) (runs P cs))
      = map (\<lambda>(a, r). (c # a, r)) (runs P cs)"
    by (induction "runs P cs") (auto simp: filter_map comp_def split_def)
  then show ?thesis using assms r by (simp add: filter_map comp_def split_def)
qed

subsection \<open>A literal followed by an identifier\<close>

lemma in_class_IdChar: "in_class IdChar = is_id_char"
  by (rule ext) simp

lemma lit_group_no_match:
  "\<not> lit_then_id lit t \<Longrightarrow> match_rx (Seq (Lit lit) (Group 1 (Plus IdChar))) (p, t, []) = []"
proof -
  assume n: "\<not> lit_then_id lit t"
  show ?thesis
  proof (cases "prefix lit t")
    case True
    with n have "drop (length lit) t = [] \<or> \<not> is_id_char (hd (drop (length lit) t))"
      by (auto simp: lit_then_id_def split: list.splits)
    from runs_nonempty_Nil[of _ is_id_char, OF this] True show ?thesis
      by (simp add: comp_def in_class_IdChar)
  qed simp
qed

lemma lit_group_match:
  assumes "lit_then_id lit t"
  shows "\<exists>p' s' rest. match_rx (Seq (Lit lit) (Group 1 (Plus IdChar))) (p, t, [])
           = (p', s', [(1, takeWhile is_id_char (drop (length lit) t))]) # rest"
proof -
  from assms obtain c cs where pre: "prefix lit t" and d: "drop (length lit) t = c # cs"
    and c: "is_id_char c"
    by (auto simp: lit_then_id_def split: list.splits)
  from runs_nonempty_Cons[of is_id_char c cs, OF c] obtain rest where
    r: "filter (\<lambda>ar. fst ar \<noteq> []) (runs is_id_char (c # cs))
          = (takeWhile is_id_char (c # cs), dropWhile is_id_char (c # cs)) # rest"
    by blast
  have "take (length (takeWhile is_id_char (c # cs))) (c # cs) = takeWhile is_id_char (c # cs)"
    by (metis append_eq_conv_conj takeWhile_dropWhile_id)
  then show ?thesis
    using pre d r c by (simp add: advance_def comp_def in_class_IdChar del: runs.simps)
qed

lemma match_from_none:
  "(\<forall>i \<le> length s. \<not> lit_then_id lit (drop i s)) \<Longrightarrow>
   match_from (Seq (Lit lit) (Group 1 (Plus IdChar))) p s = None"
proof (induction s arbitrary: p)
  case Nil
  then have "\<not> lit_then_id lit []" by simp
  from lit_group_no_match[OF this] show ?case by simp
next
  case (Cons c cs)
  from Cons(2) have "\<not> lit_then_id lit (drop 0 (c # cs))" by blast
  then have h: "match_rx (Seq (Lit lit) (Group 1 (Plus IdChar))) (p, c # cs, []) = []"
    using lit_group_no_match by simp
  have "\<forall>i \<le> length cs. \<not> lit_then_id lit (drop i cs)"
  proof (intro allI impI)
    fix i assume "i \<le> length cs"
    then have "Suc i \<le> length (c # cs)" by simp
    with Cons(2) have "\<not> lit_then_id lit (drop (Suc i) (c # cs))" by blast
    then show "\<not> lit_then_id lit (drop i cs)" by simp
  qed
  from Cons(1)[OF this] have "match_from (Seq (Lit lit) (Group 1 (Plus IdChar))) (Suc p) cs = None" .
  with h show ?case by (simp del: match_rx.simps)
qed

lemma match_from_first:
  "(\<forall>i < length pre. \<not> lit_then_id lit (drop i (pre @ t))) \<Longrightarrow> lit_then_id lit t \<Longrightarrow>
   match_from (Seq (Lit lit) (Group 1 (Plus IdChar))) p (pre @ t)
     = Some [(1, takeWhile is_id_char (drop (length lit) t))]"
proof (induction pre arbitrary: p)
  case Nil
  from lit_group_match[OF Nil(2), of p] obtain p' s' rest where
    "match_rx (Seq (Lit lit) (Group 1 (Plus IdChar))) (p, t, [])
       = (p', s', [(1, takeWhile is_id_char (drop (length lit) t))]) # rest" by blast
  then show ?case by (simp del: match_rx.simps)
next
  case (Cons c pre)
  from Cons(2) have "\<not> lit_then_id lit (drop 0 ((c # pre) @ t))" by blast
  then have h: "match_rx (Seq (Lit lit) (Group 1 (Plus IdChar))) (p, c # pre @ t, []) = []"
    using lit_group_no_match by simp
  have "\<forall>i < length pre. \<not> lit_then_id lit (drop i (pre @ t))"
  proof (intro allI impI)
    fix i assume "i < length pre"
    then have "Suc i < length (c # pre)" by simp
    with Cons(2) have "\<not> lit_then_id lit (drop (Suc i) ((c # pre) @ t))" by blast
    then show "\<not> lit_then_id lit (drop i (pre @ t))" by simp
  qed
  from Cons(1)[OF this Cons(3)] h show ?case by (simp del: match_rx.simps)
qed

subsection \<open>An identifier and nothing else\<close>

lemma runs_full:
  "filter (\<lambda>ar. snd ar = []) (runs P s) = (if list_all P s then [(s, [])] else [])"
proof (induction P s rule: runs.induct)
  case (2 P c cs)
  show ?case
  proof (cases "P c")
    case True
    have "filter (\<lambda>ar. snd ar = []) (map (\<lambda>(a, r). (c # a, r)) (runs P cs))
        = map (\<lambda>(a, r). (c # a, r)) (filter (\<lambda>ar. snd ar = []) (runs P cs))"
      by (simp add: filter_map comp_def split_def)
    with 2[OF True] True show ?thesis by simp
  qed simp
qed simp

lemma bare_id_match:
  "match_rx bare_id_rx (0, s, []) =
     (if s \<noteq> [] \<and> list_all is_id_char s then [(length s, [], [(1, s)])] else [])"
proof -
  let ?L = "filter (\<lambda>ar. fst ar \<noteq> []) (runs is_id_char s)"
  have eol: "concat (map (match_rx Eol)
               (map (\<lambda>(p', s', caps'). (p', s', (1, take (p' - 0) s) # caps'))
                 (map (advance (0, s, [])) L)))
        = map (\<lambda>ar. (length (fst ar), [], [(1, take (length (fst ar)) s)]))
            (filter (\<lambda>ar. snd ar = []) L)" for L :: "(string \<times> string) list"
    by (induction L) (auto simp: advance_def)
  have "filter (\<lambda>ar. snd ar = []) ?L = filter (\<lambda>ar. fst ar \<noteq> []) (filter (\<lambda>ar. snd ar = []) (runs is_id_char s))"
    by (simp add: conj_commute)
  also have "\<dots> = (if s \<noteq> [] \<and> list_all is_id_char s then [(s, [])] else [])"
    by (simp add: runs_full)
  finally have f: "filter (\<lambda>ar. snd ar = []) ?L
      = (if s \<noteq> [] \<and> list_all is_id_char s then [(s, [])] else [])" .
  have "match_rx bare_id_rx (0, s, []) =
      concat (map (match_rx Eol)
               (map (\<lambda>(p', s', caps'). (p', s', (1, take (p' - 0) s) # caps'))
                 (map (advance (0, s, [])) ?L)))"
    by (simp add: bare_id_rx_def in_class_IdChar)
  then show ?thesis
    unfolding eol f by simp
qed

lemma bare_id_later: "0 < p \<Longrightarrow> match_from bare_id_rx p s = None"
  by (induction s arbitrary: p) (simp_all add: bare_id_rx_def)

lemma bare_id_js_match:
  "js_match s bare_id_rx = (if s \<noteq> [] \<and> list_all is_id_char s then Some [(1, s)] else None)"
proof (cases s)
  case Nil
  then show ?thesis
    using bare_id_match[of "[]"] by (simp add: js_match_def del: match_rx.simps)
next
  case (Cons c cs)
  then show ?thesis
    using bare_id_match[of s] bare_id_later[of "Suc 0" cs]
    by (simp add: js_match_def del: match_rx.simps)
qed

subsection \<open>The first identifier after a literal\<close>

lemma all_less_upt: "(\<forall>i < n. P i) = list_all P [0..<n]"
  by (auto simp: list_all_iff)

lemma all_le_upt: "(\<forall>i \<le> n. P i) = list_all P [0..<Suc n]"
  by (auto simp: list_all_iff less_Suc_eq_le)

lemma takeWhile_run:
  "list_all P run \<Longrightarrow> post = [] \<or> \<not> P (hd post) \<Longrightarrow> takeWhile P (run @ post) = run"
  by (cases post) (auto simp: list_all_iff takeWhile_append)

lemma js_match_first_id_run:
  assumes "first_id_run lit s pre run post"
  shows "js_match s (Seq (Lit lit) (Group 1 (Plus IdChar))) = Some [(1, run)]"
proof -
  let ?t = "lit @ run @ post"
  from assms have s: "s = pre @ ?t" and run: "run \<noteq> []" "list_all is_id_char run"
    and post: "post = [] \<or> \<not> is_id_char (hd post)"
    and first: "\<forall>i < length pre. \<not> lit_then_id lit (drop i s)"
    unfolding first_id_run_def all_less_upt by blast+
  from run obtain c cs where c: "run = c # cs" "is_id_char c" by (cases run) auto
  have lt: "lit_then_id lit ?t"
    using c by (simp add: lit_then_id_def)
  have tw: "takeWhile is_id_char (drop (length lit) ?t) = run"
    using run post takeWhile_run[of is_id_char run post] by simp
  from match_from_first[OF first[unfolded s] lt, of 0]
  show ?thesis
    unfolding tw js_match_def s .
qed

lemma js_match_no_id_run:
  assumes "no_id_run lit s"
  shows "js_match s (Seq (Lit lit) (Group 1 (Plus IdChar))) = None"
proof -
  from assms have "\<forall>i \<le> length s. \<not> lit_then_id lit (drop i s)"
    by (simp add: no_id_run_def all_le_upt)
  from match_from_none[OF this, of 0] show ?thesis
    unfolding js_match_def .
qed

subsection \<open>extractDocumentId\<close>

lemma id_char_slash: "\<not> is_id_char (CHR ''/'')"
  by (simp add: is_id_char_def)

lemma no_path_in_id:
  assumes "list_all is_id_char s"
  shows "no_id_run ''/document/d/'' s"
proof -
  have "\<not> lit_then_id ''/document/d/'' (drop i s)" for i
  proof
    assume "lit_then_id ''/document/d/'' (drop i s)"
    then have "prefix ''/document/d/'' (drop i s)" by (simp add: lit_then_id_def)
    then obtain r where "drop i s = CHR ''/'' # r" by (auto simp: prefix_def)
    then have "CHR ''/'' \<in> set (drop i s)" by simp
    then have "CHR ''/'' \<in> set s" by (rule in_set_dropD)
    with assms id_char_slash show False by (auto simp: list_all_iff)
  qed
  then show ?thesis by (simp add: no_id_run_def list_all_iff)
qed

text \<open>
  Claim C7.  When the input contains \<open>/document/d/\<close> followed by a non-empty run of
  characters of \<open>[a-zA-Z0-9-_]\<close>, \<open>extractDocumentId\<close> returns the whole run that follows
  the first such occurrence.  When the input is a bare ID, a non-empty string of
  characters of that class, it returns the input.  For every other input it returns
  \<open>null\<close>.
\<close>

theorem extractDocumentId_cases:
  "(first_id_run ''/document/d/'' s pre run post \<longrightarrow> extractDocumentId s = Some run) \<and>
   (s \<noteq> [] \<and> list_all is_id_char s \<longrightarrow> extractDocumentId s = Some s) \<and>
   (no_id_run ''/document/d/'' s \<and> \<not> (s \<noteq> [] \<and> list_all is_id_char s)
      \<longrightarrow> extractDocumentId s = None)"
proof (intro conjI impI)
  assume "first_id_run ''/document/d/'' s pre run post"
  from js_match_first_id_run[OF this] show "extractDocumentId s = Some run"
    by (simp add: extractDocumentId_def doc_path_rx_def del: match_rx.simps)
next
  assume a: "s \<noteq> [] \<and> list_all is_id_char s"
  then have "no_id_run ''/document/d/'' s" by (simp add: no_path_in_id)
  from js_match_no_id_run[OF this] a show "extractDocumentId s = Some s"
    by (simp add: extractDocumentId_def doc_path_rx_def bare_id_js_match)
next
  assume a: "no_id_run ''/document/d/'' s \<and> \<not> (s \<noteq> [] \<and> list_all is_id_char s)"
  then have "no_id_run ''/document/d/'' s" by blast
  from js_match_no_id_run[OF this] a show "extractDocumentId s = None"
    by (auto simp: extractDocumentId_def doc_path_rx_def bare_id_js_match)
qed

theorem extractDocumentId_cases_witness:
  "extractDocumentId ''https://docs.google.com/document/d/1AbC-_9/edit'' = Some ''1AbC-_9'' \<and>
   extractDocumentId ''1AbC-_9'' = Some ''1AbC-_9'' \<and>
   extractDocumentId ''hello world'' = None"
proof -
  let ?u = "''https://docs.google.com/document/d/1AbC-_9/edit''"
  have u: "first_id_run ''/document/d/'' ?u ''https://docs.google.com'' ''1AbC-_9'' ''/edit''"
    by (simp add: first_id_run_def lit_then_id_def is_id_char_def)
  have b: "''1AbC-_9'' \<noteq> [] \<and> list_all is_id_char ''1AbC-_9''"
    by (simp add: is_id_char_def)
  have h: "no_id_run ''/document/d/'' ''hello world'' \<and>
      \<not> (''hello world'' \<noteq> [] \<and> list_all is_id_char ''hello world'')"
    by (simp add: no_id_run_def lit_then_id_def is_id_char_def)
  from extractDocumentId_cases[of ?u "''https://docs.google.com''" "''1AbC-_9''" "''/edit''",
      THEN conjunct1, rule_format, OF u]
    extractDocumentId_cases[of "''1AbC-_9''", THEN conjunct2, THEN conjunct1, rule_format, OF b]
    extractDocumentId_cases[of "''hello world''", THEN conjunct2, THEN conjunct2, rule_format, OF h]
  show ?thesis by blast
qed

text \<open>The empty string is not a bare ID: it is one of the other inputs.\<close>

lemma extractDocumentId_empty: "extractDocumentId [] = None"
  by (simp add: extractDocumentId_def js_match_def doc_path_rx_def bare_id_rx_def)

subsection \<open>detectUserIntent\<close>

text \<open>
  Claim C8, as amended.  \<open>detectUserIntent\<close> takes the first pattern that matches the
  lower-cased message, in a fixed order that starts with the extract pattern: a message
  that matches it yields \<open>extract_new_docs\<close>.  A message that does not match it, matches
  the comment pattern and has a Google Docs document URL yields \<open>analyze_with_comments\<close>
  with the id of the first such URL.  A message that matches neither of the two, matches
  the review pattern and has a document URL yields \<open>review_document\<close> with that id.  A
  message that matches none of the patterns yields \<open>general_chat\<close>.
\<close>

theorem detectUserIntent_precedence:
  "(js_match (toLowerCase msg) extract_rx \<noteq> None \<longrightarrow>
      detectUserIntent msg = ExtractNewDocs) \<and>
   (js_match (toLowerCase msg) extract_rx = None \<and>
    js_match (toLowerCase msg) comments_rx \<noteq> None \<and>
    first_id_run docs_url msg pre run post \<longrightarrow>
      detectUserIntent msg = AnalyzeWithComments (Some run)) \<and>
   (js_match (toLowerCase msg) extract_rx = None \<and>
    js_match (toLowerCase msg) comments_rx = None \<and>
    js_match (toLowerCase msg) review_rx \<noteq> None \<and>
    first_id_run docs_url msg pre run post \<longrightarrow>
      detectUserIntent msg = ReviewDocument (Some run)) \<and>
   (js_match (toLowerCase msg) extract_rx = None \<and>
    js_match (toLowerCase msg) comments_rx = None \<and>
    js_match (toLowerCase msg) review_rx = None \<and>
    js_match (toLowerCase msg) sync_rx = None \<and>
    js_match (toLowerCase msg) doc_name_rx = None \<and>
    js_match (toLowerCase msg) tabs_rx = None \<and>
    js_match (toLowerCase msg) query_rx = None \<longrightarrow>
      detectUserIntent msg = GeneralChat)"
proof (intro conjI impI)
  assume "js_match (toLowerCase msg) extract_rx \<noteq> None"
  then show "detectUserIntent msg = ExtractNewDocs"
    by (simp add: detectUserIntent_def Let_def)
next
  assume a: "js_match (toLowerCase msg) extract_rx = None \<and>
    js_match (toLowerCase msg) comments_rx \<noteq> None \<and>
    first_id_run docs_url msg pre run post"
  then have "js_match msg doc_url_rx = Some [(1, run)]"
    unfolding doc_url_rx_def by (intro js_match_first_id_run) blast
  with a show "detectUserIntent msg = AnalyzeWithComments (Some run)"
    by (simp add: detectUserIntent_def Let_def)
next
  assume a: "js_match (toLowerCase msg) extract_rx = None \<and>
    js_match (toLowerCase msg) comments_rx = None \<and>
    js_match (toLowerCase msg) review_rx \<noteq> None \<and>
    first_id_run docs_url msg pre run post"
  then have "js_match msg doc_url_rx = Some [(1, run)]"
    unfolding doc_url_rx_def by (intro js_match_first_id_run) blast
  with a show "detectUserIntent msg = ReviewDocument (Some run)"
    by (simp add: detectUserIntent_def Let_def)
next
  assume "js_match (toLowerCase msg) extract_rx = None \<and>
    js_match (toLowerCase msg) comments_rx = None \<and>
    js_match (toLowerCase msg) review_rx = None \<and>
    js_match (toLowerCase msg) sync_rx = None \<and>
    js_match (toLowerCase msg) doc_name_rx = None \<and>
    js_match (toLowerCase msg) tabs_rx = None \<and>
    js_match (toLowerCase msg) query_rx = None"
  then show "detectUserIntent msg = GeneralChat"
    by (simp add: detectUserIntent_def Let_def)
qed

theorem detectUserIntent_precedence_witness:
  "detectUserIntent ''Please add comments: https://docs.google.com/document/d/abc-1 thanks''
     = AnalyzeWithComments (Some ''abc-1'') \<and>
   detectUserIntent ''Can you review https://docs.google.com/document/d/abc-1?''
     = ReviewDocument (Some ''abc-1'') \<and>
   detectUserIntent ''hello there'' = GeneralChat \<and>
   detectUserIntent ''scan it'' = ExtractNewDocs"
proof -
  let ?a = "''Please add comments: https://docs.google.com/document/d/abc-1 thanks''"
  let ?r = "''Can you review https://docs.google.com/document/d/abc-1?''"
  have a1: "js_match (toLowerCase ?a) extract_rx = None \<and> js_match (toLowerCase ?a) comments_rx \<noteq> None"
    by code_simp
  have a2: "first_id_run docs_url ?a ''Please add comments: '' ''abc-1'' '' thanks''"
    by (simp add: first_id_run_def docs_url_def lit_then_id_def is_id_char_def)
  have r1: "js_match (toLowerCase ?r) extract_rx = None \<and> js_match (toLowerCase ?r) comments_rx = None \<and>
      js_match (toLowerCase ?r) review_rx \<noteq> None"
    by code_simp
  have r2: "first_id_run docs_url ?r ''Can you review '' ''abc-1'' ''?''"
    by (simp add: first_id_run_def docs_url_def lit_then_id_def is_id_char_def)
  have h: "js_match (toLowerCase ''hello there'') extract_rx = None \<and>
    js_match (toLowerCase ''hello there'') comments_rx = None \<and>
    js_match (toLowerCase ''hello there'') review_rx = None \<and>
    js_match (toLowerCase ''hello there'') sync_rx = None \<and>
    js_match (toLowerCase ''hello there'') doc_name_rx = None \<and>
    js_match (toLowerCase ''hello there'') tabs_rx = None \<and>
    js_match (toLowerCase ''hello there'') query_rx = None"
    by code_simp
  have s: "js_match (toLowerCase ''scan it'') extract_rx \<noteq> None"
    by code_simp
  from detectUserIntent_precedence[of ?a "''Please add comments: ''" "''abc-1''" "'' thanks''",
        THEN conjunct2, THEN conjunct1] a1 a2
  have "detectUserIntent ?a = AnalyzeWithComments (Some ''abc-1'')" by blast
  moreover
  from detectUserIntent_precedence[of ?r "''Can you review ''" "''abc-1''" "''?''",
        THEN conjunct2, THEN conjunct2, THEN conjunct1] r1 r2
  have "detectUserIntent ?r = ReviewDocument (Some ''abc-1'')" by blast
  moreover
  from detectUserIntent_precedence[of "''hello there''", THEN conjunct2, THEN conjunct2, THEN conjunct2] h
  have "detectUserIntent ''hello there'' = GeneralChat" by blast
  moreover
  from detectUserIntent_precedence[of "''scan it''", THEN conjunct1] s
  have "detectUserIntent ''scan it'' = ExtractNewDocs" by blast
  ultimately show ?thesis by blast
qed

text \<open>A message that matches the comment pattern and has a document URL, but also matches
  the extract pattern, is not classified as \<open>analyze_with_comments\<close>.\<close>

theorem detectUserIntent_extract_first_counterexample:
  "js_match (toLowerCase ''scan and add comments https://docs.google.com/document/d/abc'') comments_rx \<noteq> None \<and>
   js_match ''scan and add comments https://docs.google.com/document/d/abc'' doc_url_rx = Some [(1, ''abc'')] \<and>
   detectUserIntent ''scan and add comments https://docs.google.com/document/d/abc'' = ExtractNewDocs"
  by code_simp

section \<open>The entry points\<close>

lemma try_catch_total:
  "(\<And>error. \<exists>r. handler error = Inr r) \<Longrightarrow> \<exists>r. try_catch body handler = Inr r"
  by (cases body) (simp_all add: try_catch_def)

lemma handleConversationalQuery_total: "\<exists>r. handleConversationalQuery e m h = Inr r"
  unfolding handleConversationalQuery_def by (rule try_catch_total) simp

lemma reviewDocument_total: "\<exists>r. reviewDocument e d h = Inr r"
  unfolding reviewDocument_def by (rule try_catch_total) simp

lemma processMessage_total: "\<exists>r. processMessage e m h = Inr r"
  unfolding processMessage_def by (rule try_catch_total) simp

lemma doPost_total: "\<exists>r. doPost e c = Inr r"
  unfolding doPost_def by (rule try_catch_total) simp

text \<open>The best-effort lookups.\<close>

lemma retrieveFromPinecone_or_empty:
  "retrieveFromPinecone e t k = Inr (or_empty (embed_and_query e (substring t 0 1000) k))"
  by (cases "embed_and_query e (substring t 0 1000) k")
     (simp_all add: retrieveFromPinecone_def try_catch_def or_empty_def)

lemma searchRulesInDrive_or_empty:
  "searchRulesInDrive e q =
     Inr (if rules_folder_id e = None then [] else or_empty (search_folder e q))"
  by (cases "search_folder e q") (simp_all add: searchRulesInDrive_def try_catch_def or_empty_def)

lemma listRuleDocuments_or_empty:
  "listRuleDocuments e = Inr (if rules_folder_id e = None then [] else or_empty (list_folder e))"
  by (cases "list_folder e") (simp_all add: listRuleDocuments_def try_catch_def or_empty_def)

lemma gatherContext_gathered: "gatherContext e q = Inr (gathered e q)"
  by (simp add: gatherContext_def gathered_def retrieveFromPinecone_or_empty
      searchRulesInDrive_or_empty listRuleDocuments_or_empty and_then_def try_catch_def)

lemma processMessage_route:
  "processMessage e (Str m) h =
     (case review_target m of
        Some docId \<Rightarrow> reviewDocument e docId h
      | None \<Rightarrow> handleConversationalQuery e m h)"
proof (cases "review_target m")
  case None
  obtain r where r: "handleConversationalQuery e m h = Inr r"
    using handleConversationalQuery_total by blast
  with None show ?thesis
    by (auto simp: processMessage_def isDocumentReviewRequest_def review_target_def and_then_def
        try_catch_def Let_def split: if_splits)
next
  case (Some d)
  obtain r where r: "reviewDocument e d h = Inr r"
    using reviewDocument_total by blast
  with Some show ?thesis
    by (auto simp: processMessage_def isDocumentReviewRequest_def review_target_def and_then_def
        try_catch_def Let_def split: if_splits)
qed

lemma processMessage_not_string:
  assumes "\<forall>m. userMessage \<noteq> Str m"
  shows "processMessage e userMessage h =
     Inr \<lparr>success = False,
          message = ''Error: '' @ error_toString (fault_message e)
                                    (TypeError (lower_case_fault userMessage)),
          extra = NoExtra\<rparr>"
  using assms
  by (cases userMessage)
     (simp_all add: processMessage_def isDocumentReviewRequest_def and_then_def try_catch_def)

lemma handleConversationalQuery_throws:
  assumes "generateConversationalResponse e m (gathered e m) h = Inl err"
  shows "handleConversationalQuery e m h =
     Inr \<lparr>success = False,
          message = ''Error processing your question: '' @ error_toString (fault_message e) err,
          extra = NoExtra\<rparr>"
  using assms
  by (simp add: handleConversationalQuery_def gatherContext_gathered and_then_def try_catch_def)

lemma handleConversationalQuery_answers:
  assumes "generateConversationalResponse e m (gathered e m) h = Inr reply"
  shows "handleConversationalQuery e m h =
     Inr \<lparr>success = True, message = reply, extra = WithContext (gathered e m)\<rparr>"
  using assms
  by (simp add: handleConversationalQuery_def gatherContext_gathered and_then_def try_catch_def)

lemma reviewDocument_unreadable:
  assumes "open_document e d = Inl err"
  shows "reviewDocument e d h =
     Inr \<lparr>success = False,
          message = formatErrorMessage d (error_toString (fault_message e) err),
          extra = NoExtra\<rparr>"
  using assms by (simp add: reviewDocument_def readGoogleDoc_def and_then_def try_catch_def)

lemma reviewDocument_analysis:
  assumes "open_document e d = Inr (title, body)"
  shows "reviewDocument e d h =
     (case analyzeDocumentWithRules e (title, body)
             (or_empty (embed_and_query e (substring body 0 1000) 10),
              if rules_folder_id e = None then [] else or_empty (search_folder e body)) h of
        Inl err \<Rightarrow>
          Inr \<lparr>success = False, message = ''Error: '' @ error_toString (fault_message e) err,
               extra = NoExtra\<rparr>
      | Inr analysis \<Rightarrow>
          Inr \<lparr>success = True, message = analysis,
               extra = WithReview title
                 (length (or_empty (embed_and_query e (substring body 0 1000) 10)))
                 (length (if rules_folder_id e = None then []
                          else or_empty (search_folder e body)))\<rparr>)"
  using assms
  by (simp add: reviewDocument_def readGoogleDoc_def retrieveFromPinecone_or_empty
      searchRulesInDrive_or_empty and_then_def try_catch_def split: sum.splits)

lemma doPost_parse_throws:
  assumes "json_parse e c = Inl err"
  shows "doPost e (Some c) =
     Inr \<lparr>success = False, message = error_toString (fault_message e) err, extra = NoExtra\<rparr>"
  using assms by (simp add: doPost_def and_then_def try_catch_def)

lemma doPost_process:
  assumes "json_parse e c = Inr (Body m hist)"
  shows "doPost e (Some c) = processMessage e m (case hist of None \<Rightarrow> [] | Some h \<Rightarrow> h)"
proof -
  obtain r where "processMessage e m (case hist of None \<Rightarrow> [] | Some h \<Rightarrow> h) = Inr r"
    using processMessage_total by blast
  with assms show ?thesis by (simp add: doPost_def and_then_def try_catch_def)
qed

text \<open>
  Claim C6, as amended.  \<open>processMessage\<close> and \<open>doPost\<close> never propagate an exception: they
  always return an object with a \<open>success\<close> and a \<open>message\<close> field, and \<open>doPost\<close> returns
  the object of \<open>processMessage\<close> once the body is read and parsed.  When a step that is
  not a best-effort lookup throws (reading or parsing the POST body, lower-casing a
  message that is not a string, the call that generates the answer or the analysis), the
  result has \<open>success\<close> false and a message that ends with the string of the error; a
  document that cannot be opened gives \<open>success\<close> false and the message of
  \<open>formatErrorMessage\<close> with the string of the error.  A best-effort lookup (Pinecone
  retrieval, Drive rule search, rule-document listing) that throws gives the empty list,
  and the answer or the review that follows is returned with \<open>success\<close> true.
\<close>

theorem entry_points_catch:
  "(\<exists>r. processMessage e userMessage h = Inr r) \<and>
   (\<exists>r. doPost e contents = Inr r) \<and>
   (\<forall>c m hist. json_parse e c = Inr (Body m hist) \<longrightarrow>
        doPost e (Some c) = processMessage e m (case hist of None \<Rightarrow> [] | Some h' \<Rightarrow> h')) \<and>
   (\<exists>r. doPost e None = Inr r \<and> reports e r (TypeError (ReadOfUndefined ''contents''))) \<and>
   (\<forall>c err. json_parse e c = Inl err \<longrightarrow> (\<exists>r. doPost e (Some c) = Inr r \<and> reports e r err)) \<and>
   (\<forall>c. json_parse e c = Inr NullBody \<longrightarrow>
        (\<exists>r. doPost e (Some c) = Inr r \<and> reports e r (TypeError (ReadOfNull ''message'')))) \<and>
   ((\<forall>m. userMessage \<noteq> Str m) \<longrightarrow>
        (\<exists>r. processMessage e userMessage h = Inr r \<and>
             reports e r (TypeError (lower_case_fault userMessage)))) \<and>
   (\<forall>m err. review_target m = None \<and>
        generateConversationalResponse e m (gathered e m) h = Inl err \<longrightarrow>
        (\<exists>r. processMessage e (Str m) h = Inr r \<and> reports e r err)) \<and>
   (\<forall>m d title body err. review_target m = Some d \<and> open_document e d = Inr (title, body) \<and>
        analyzeDocumentWithRules e (title, body)
          (or_empty (embed_and_query e (substring body 0 1000) 10),
           if rules_folder_id e = None then [] else or_empty (search_folder e body)) h = Inl err \<longrightarrow>
        (\<exists>r. processMessage e (Str m) h = Inr r \<and> reports e r err)) \<and>
   (\<forall>m d err. review_target m = Some d \<and> open_document e d = Inl err \<longrightarrow>
        processMessage e (Str m) h =
          Inr \<lparr>success = False,
               message = formatErrorMessage d (error_toString (fault_message e) err),
               extra = NoExtra\<rparr>) \<and>
   (\<forall>t k err. embed_and_query e (substring t 0 1000) k = Inl err \<longrightarrow>
        retrieveFromPinecone e t k = Inr []) \<and>
   (\<forall>q err. search_folder e q = Inl err \<longrightarrow> searchRulesInDrive e q = Inr []) \<and>
   (\<forall>err. list_folder e = Inl err \<longrightarrow> listRuleDocuments e = Inr []) \<and>
   (\<forall>q. gatherContext e q = Inr (gathered e q)) \<and>
   (\<forall>m reply. review_target m = None \<and>
        generateConversationalResponse e m (gathered e m) h = Inr reply \<longrightarrow>
        processMessage e (Str m) h =
          Inr \<lparr>success = True, message = reply, extra = WithContext (gathered e m)\<rparr>) \<and>
   (\<forall>m d title body analysis. review_target m = Some d \<and>
        open_document e d = Inr (title, body) \<and>
        analyzeDocumentWithRules e (title, body)
          (or_empty (embed_and_query e (substring body 0 1000) 10),
           if rules_folder_id e = None then [] else or_empty (search_folder e body)) h
          = Inr analysis \<longrightarrow>
        processMessage e (Str m) h =
          Inr \<lparr>success = True, message = analysis,
               extra = WithReview title
                 (length (or_empty (embed_and_query e (substring body 0 1000) 10)))
                 (length (if rules_folder_id e = None then []
                          else or_empty (search_folder e body)))\<rparr>)"
proof (intro conjI allI impI)
  show "\<exists>r. processMessage e userMessage h = Inr r" by (rule processMessage_total)
  show "\<exists>r. doPost e contents = Inr r" by (rule doPost_total)
  show "\<exists>r. doPost e None = Inr r \<and> reports e r (TypeError (ReadOfUndefined ''contents''))"
    by (simp add: doPost_def try_catch_def reports_def undefined_read_def)
next
  fix c m hist assume "json_parse e c = Inr (Body m hist)"
  then show "doPost e (Some c) = processMessage e m (case hist of None \<Rightarrow> [] | Some h' \<Rightarrow> h')"
    by (rule doPost_process)
next
  fix c err assume "json_parse e c = Inl err"
  then show "\<exists>r. doPost e (Some c) = Inr r \<and> reports e r err"
    by (simp add: doPost_parse_throws reports_def)
next
  fix c assume "json_parse e c = Inr NullBody"
  then show "\<exists>r. doPost e (Some c) = Inr r \<and> reports e r (TypeError (ReadOfNull ''message''))"
    by (simp add: doPost_def and_then_def try_catch_def reports_def)
next
  assume "\<forall>m. userMessage \<noteq> Str m"
  then show "\<exists>r. processMessage e userMessage h = Inr r \<and>
             reports e r (TypeError (lower_case_fault userMessage))"
    by (simp add: processMessage_not_string reports_def suffix_def del: error_toString.simps)
next
  fix m err
  assume "review_target m = None \<and>
        generateConversationalResponse e m (gathered e m) h = Inl err"
  then show "\<exists>r. processMessage e (Str m) h = Inr r \<and> reports e r err"
    by (simp add: processMessage_route handleConversationalQuery_throws reports_def suffix_def)
next
  fix m d title body err
  assume "review_target m = Some d \<and> open_document e d = Inr (title, body) \<and>
        analyzeDocumentWithRules e (title, body)
          (or_empty (embed_and_query e (substring body 0 1000) 10),
           if rules_folder_id e = None then [] else or_empty (search_folder e body)) h = Inl err"
  then show "\<exists>r. processMessage e (Str m) h = Inr r \<and> reports e r err"
    using reviewDocument_analysis[of e d title body h]
    by (simp add: processMessage_route reports_def suffix_def)
next
  fix m d err assume "review_target m = Some d \<and> open_document e d = Inl err"
  then show "processMessage e (Str m) h =
          Inr \<lparr>success = False,
               message = formatErrorMessage d (error_toString (fault_message e) err),
               extra = NoExtra\<rparr>"
    by (simp add: processMessage_route reviewDocument_unreadable)
next
  fix t k err assume "embed_and_query e (substring t 0 1000) k = Inl err"
  then show "retrieveFromPinecone e t k = Inr []"
    by (simp add: retrieveFromPinecone_or_empty or_empty_def)
next
  fix q err assume "search_folder e q = Inl err"
  then show "searchRulesInDrive e q = Inr []"
    by (simp add: searchRulesInDrive_or_empty or_empty_def)
next
  fix err assume "list_folder e = Inl err"
  then show "listRuleDocuments e = Inr []"
    by (simp add: listRuleDocuments_or_empty or_empty_def)
next
  fix q show "gatherContext e q = Inr (gathered e q)" by (rule gatherContext_gathered)
next
  fix m reply
  assume "review_target m = None \<and>
        generateConversationalResponse e m (gathered e m) h = Inr reply"
  then show "processMessage e (Str m) h =
          Inr \<lparr>success = True, message = reply, extra = WithContext (gathered e m)\<rparr>"
    by (simp add: processMessage_route handleConversationalQuery_answers)
next
  fix m d title body analysis
  assume "review_target m = Some d \<and>
        open_document e d = Inr (title, body) \<and>
        analyzeDocumentWithRules e (title, body)
          (or_empty (embed_and_query e (substring body 0 1000) 10),
           if rules_folder_id e = None then [] else or_empty (search_folder e body)) h
          = Inr analysis"
  then show "processMessage e (Str m) h =
          Inr \<lparr>success = True, message = analysis,
               extra = WithReview title
                 (length (or_empty (embed_and_query e (substring body 0 1000) 10)))
                 (length (if rules_folder_id e = None then []
                          else or_empty (search_folder e body)))\<rparr>"
    using reviewDocument_analysis[of e d title body h]
    by (simp add: processMessage_route)
qed

lemma sample_route: "review_target ''hi'' = None" "review_target ''fail'' = None"
  by code_simp+

lemma sample_context:
  "gathered sample_env m = \<lparr>pineconeRules = [], driveRules = [], relevantDocs = []\<rparr>"
  by (simp add: gathered_def sample_env_def or_empty_def)

theorem entry_points_catch_witness:
  "processMessage sample_env (Str ''fail'') [] =
     Inr \<lparr>success = False,
          message = ''Error processing your question: Error: Failed to get response from Gemini: timeout'',
          extra = NoExtra\<rparr> \<and>
   doPost sample_env (Some ''oops'') =
     Inr \<lparr>success = False, message = ''SyntaxError: Unexpected token o in JSON'', extra = NoExtra\<rparr> \<and>
   doPost sample_env (Some ''hi'') = processMessage sample_env (Str ''hi'') [] \<and>
   retrieveFromPinecone sample_env ''hi'' 5 = Inr [] \<and>
   (\<exists>r. processMessage sample_env Undefined [] = Inr r \<and> \<not> success r \<and>
        suffix (''TypeError: Cannot read properties of undefined (reading '' @ [CHR 0x27] @
                ''toLowerCase'' @ [CHR 0x27] @ '')'') (message r))"
proof -
  let ?err = "Error ''Failed to get response from Gemini: timeout''"
  note t = entry_points_catch[of sample_env Undefined "[]" "Some ''oops''"]
  note delegates = t[THEN conjunct2, THEN conjunct2, THEN conjunct1, rule_format]
  note parse_throws = t[THEN conjunct2, THEN conjunct2, THEN conjunct2, THEN conjunct2,
      THEN conjunct1, rule_format]
  note not_string = t[THEN conjunct2, THEN conjunct2, THEN conjunct2, THEN conjunct2,
      THEN conjunct2, THEN conjunct2, THEN conjunct1, rule_format]
  note answer_throws = t[THEN conjunct2, THEN conjunct2, THEN conjunct2, THEN conjunct2,
      THEN conjunct2, THEN conjunct2, THEN conjunct2, THEN conjunct1, rule_format]
  note lookup_throws = t[THEN conjunct2, THEN conjunct2, THEN conjunct2, THEN conjunct2,
      THEN conjunct2, THEN conjunct2, THEN conjunct2, THEN conjunct2, THEN conjunct2,
      THEN conjunct2, THEN conjunct1, rule_format]
  have g: "generateConversationalResponse sample_env ''fail'' (gathered sample_env ''fail'') [] = Inl ?err"
    by (simp add: sample_env_def)
  have "review_target ''fail'' = None \<and>
        generateConversationalResponse sample_env ''fail'' (gathered sample_env ''fail'') [] = Inl ?err"
    using sample_route g by blast
  from answer_throws[OF this]
  obtain r where r: "processMessage sample_env (Str ''fail'') [] = Inr r"
    "reports sample_env r ?err"
    by blast
  have p: "json_parse sample_env ''oops'' = Inl (SyntaxError ''Unexpected token o in JSON'')"
    by (simp add: sample_env_def)
  from parse_throws[OF p]
  obtain r' where r': "doPost sample_env (Some ''oops'') = Inr r'"
    "reports sample_env r' (SyntaxError ''Unexpected token o in JSON'')"
    by blast
  have b: "json_parse sample_env ''hi'' = Inr (Body (Str ''hi'') None)"
    by (simp add: sample_env_def)
  from delegates[OF b]
  have 3: "doPost sample_env (Some ''hi'') = processMessage sample_env (Str ''hi'') []"
    by simp
  have q: "embed_and_query sample_env (substring ''hi'' 0 1000) 5
            = Inl (Error ''Failed to generate embedding: quota'')"
    by (simp add: sample_env_def)
  from lookup_throws[OF q]
  have 4: "retrieveFromPinecone sample_env ''hi'' 5 = Inr []" .
  have "Undefined \<noteq> Str m" for m by simp
  from not_string[OF this]
  obtain u where u: "processMessage sample_env Undefined [] = Inr u"
    "reports sample_env u (TypeError (lower_case_fault Undefined))"
    by blast
  have 5: "\<exists>r. processMessage sample_env Undefined [] = Inr r \<and> \<not> success r \<and>
        suffix (''TypeError: Cannot read properties of undefined (reading '' @ [CHR 0x27] @
                ''toLowerCase'' @ [CHR 0x27] @ '')'') (message r)"
    using u by (simp add: reports_def sample_env_def named_def)
  have 1: "processMessage sample_env (Str ''fail'') [] =
     Inr \<lparr>success = False,
          message = ''Error processing your question: Error: Failed to get response from Gemini: timeout'',
          extra = NoExtra\<rparr>"
    using sample_route g
    by (simp add: processMessage_route handleConversationalQuery_throws sample_env_def named_def)
  have 2: "doPost sample_env (Some ''oops'') =
     Inr \<lparr>success = False, message = ''SyntaxError: Unexpected token o in JSON'', extra = NoExtra\<rparr>"
    using p by (simp add: doPost_parse_throws sample_env_def named_def)
  from r r' 1 2 3 4 5 show ?thesis by blast
qed

text \<open>The embedding call throws inside \<open>retrieveFromPinecone\<close>, which turns the failure
  into an empty list: the answer is still a success.\<close>

theorem best_effort_counterexample:
  "embed_and_query sample_env (substring ''hi'' 0 1000) 5
     = Inl (Error ''Failed to generate embedding: quota'') \<and>
   processMessage sample_env (Str ''hi'') [] =
     Inr \<lparr>success = True, message = ''Hello!'',
          extra = WithContext \<lparr>pineconeRules = [], driveRules = [], relevantDocs = []\<rparr>\<rparr>"
proof -
  have "generateConversationalResponse sample_env ''hi'' (gathered sample_env ''hi'') [] = Inr ''Hello!''"
    by (simp add: sample_env_def)
  then have "processMessage sample_env (Str ''hi'') [] =
     Inr \<lparr>success = True, message = ''Hello!'',
          extra = WithContext \<lparr>pineconeRules = [], driveRules = [], relevantDocs = []\<rparr>\<rparr>"
    using sample_route sample_context
    by (simp add: processMessage_route handleConversationalQuery_answers)
  then show ?thesis by (simp add: sample_env_def)
qed

end
